theory Spec2Isabelle
  imports Main
begin

section \<open>Paths\<close>

text \<open>
  A path is the list of its components below the root of the file system: the
  empty list is the root \<^verbatim>\<open>/\<close> itself. Components are compared literally;
  symbolic links and the meaning of \<^verbatim>\<open>..\<close> in a lookup are outside the model,
  and a path that the program holds relative to the working directory is taken
  here in its absolute form.
\<close>

type_synonym path = "string list"

fun split_on :: "char \<Rightarrow> string \<Rightarrow> string list" where
  "split_on d [] = [[]]"
| "split_on d (x # xs) =
     (if x = d then [] # split_on d xs
      else (case split_on d xs of
              [] \<Rightarrow> [[x]]
            | w # ws \<Rightarrow> (x # w) # ws))"

definition parse_parts :: "string \<Rightarrow> string list" where
  \<comment> \<open>how the path library reads a string: split at the slashes, empty
      components and single dots dropped\<close>
  "parse_parts s = filter (\<lambda>p. p \<noteq> [] \<and> p \<noteq> ''.'') (split_on (CHR ''/'') s)"

definition joinpath :: "path \<Rightarrow> string \<Rightarrow> path" where
  \<comment> \<open>the operator \<^verbatim>\<open>/\<close> of the path library: an absolute right operand
      replaces the left one\<close>
  "joinpath p s =
     (case s of
        [] \<Rightarrow> p
      | x # _ \<Rightarrow> if x = CHR ''/'' then parse_parts s else p @ parse_parts s)"

definition resolve :: "path \<Rightarrow> path" where
  \<comment> \<open>paths of the model are absolute already; without symbolic links the
      library lets every component \<^verbatim>\<open>..\<close> take away the one before it\<close>
  "resolve p = foldl (\<lambda>acc x. if x = ''..'' then butlast acc else acc @ [x]) [] p"

definition str :: "path \<Rightarrow> string" where
  "str p = (if p = [] then ''/'' else concat (map (\<lambda>x. CHR ''/'' # x) p))"

section \<open>The certificate and what is derived from it\<close>

record CertificationAuthority =
  ca_pem_path :: path
  ca_key_path :: path
  ca_srl_path :: path

record Certificate =
  authority :: CertificationAuthority
  root_path :: path
  name :: string
  domain :: string

definition key_path :: "Certificate \<Rightarrow> path" where
  "key_path c = joinpath (root_path c) (name c @ ''.key'')"

definition csr_path :: "Certificate \<Rightarrow> path" where
  "csr_path c = joinpath (root_path c) (name c @ ''.csr'')"

definition crt_path :: "Certificate \<Rightarrow> path" where
  "crt_path c = joinpath (root_path c) (name c @ ''.crt'')"

definition conf_path :: "Certificate \<Rightarrow> path" where
  "conf_path c = joinpath (root_path c) (name c @ ''.conf'')"

definition common_name :: "Certificate \<Rightarrow> string" where
  "common_name c = domain c"

definition email :: "Certificate \<Rightarrow> string" where
  "email c = domain c @ ''@localhttps''"

definition subject_parts :: "Certificate \<Rightarrow> (string \<times> string) list" where
  "subject_parts c =
     [ (''C'', ''''),
       (''ST'', ''''),
       (''O'', ''''),
       (''localityName'', ''''),
       (''commonName'', common_name c),
       (''organizationalUnitName'', ''''),
       (''emailAddress'', email c) ]"

definition subject :: "Certificate \<Rightarrow> string" where
  "subject c =
     concat (map (\<lambda>(key, val). ''/'' @ key @ ''='' @ val) (subject_parts c)) @ ''/''"

section \<open>The request configuration\<close>

definition nl :: char where
  "nl = CHR 0x0A"

definition tab :: char where
  "tab = CHR 0x09"

definition is_space :: "char \<Rightarrow> bool" where
  \<comment> \<open>the characters that \<^verbatim>\<open>str.strip()\<close> removes, among the first 256 code points\<close>
  "is_space ch =
     (let n = (of_char ch :: nat)
      in (9 \<le> n \<and> n \<le> 13) \<or> (28 \<le> n \<and> n \<le> 32) \<or> n = 133 \<or> n = 160)"

definition lstrip :: "string \<Rightarrow> string" where
  "lstrip s = dropWhile is_space s"

definition rstrip :: "string \<Rightarrow> string" where
  "rstrip s = rev (dropWhile is_space (rev s))"

definition strip :: "string \<Rightarrow> string" where
  "strip s = rstrip (lstrip s)"

definition conf_lines :: "string \<Rightarrow> string list" where
  \<comment> \<open>the lines of the template between its opening and closing quotes\<close>
  "conf_lines d =
     [ ''[req]'',
       ''distinguished_name = req_distinguished_name'',
       ''req_extensions = v3_req'',
       '''',
       ''[req_distinguished_name]'',
       ''countryName = Country Name (2 letter code)'',
       ''countryName_default = US'',
       ''stateOrProvinceName = State or Province Name (full name)'',
       ''stateOrProvinceName_default = MN'',
       ''localityName = Locality Name (eg, city)'',
       ''localityName_default = Minneapolis'',
       ''organizationalUnitName'' @ [tab] @ ''= Organizational Unit Name (eg, section)'',
       ''organizationalUnitName_default'' @ [tab] @ ''= Domain Control Validated'',
       ''commonName = Internet Widgits Ltd'',
       ''commonName_max'' @ [tab] @ ''= 64'',
       '''',
       ''[ v3_req ]'',
       ''# Extensions to add to a certificate request'',
       ''basicConstraints = CA:FALSE'',
       ''keyUsage = nonRepudiation, digitalSignature, keyEncipherment'',
       ''subjectAltName = @alt_names'',
       '''',
       ''[alt_names]'',
       ''DNS.1 = '' @ d,
       ''DNS.2 = *.'' @ d ]"

definition conf_template :: "string \<Rightarrow> string" where
  \<comment> \<open>the formatted string: a line break after the opening quotes and after
      every line\<close>
  "conf_template d = concat (map (\<lambda>l. nl # l) (conf_lines d)) @ [nl]"

definition conf_text :: "Certificate \<Rightarrow> string" where
  \<comment> \<open>the text that \<^verbatim>\<open>_build_certificate_conf\<close> writes\<close>
  "conf_text c = strip (conf_template (domain c))"

section \<open>The file system and the external tool\<close>

text \<open>
  The file system is an association list from paths to nodes. A regular file
  carries its text and its permission bits; the root \<^verbatim>\<open>/\<close> is always a
  directory. The operations below are those of the path library that the
  program calls, with the errors the operating system reports for them.
\<close>

datatype node = File string nat | Dir

type_synonym filesystem = "(path \<times> node) list"

datatype error =
    FileNotFoundError path
  | FileExistsError path
  | IsADirectoryError path
  | NotADirectoryError path
  | OSError path
  | CmdError string

datatype event =
    Unlink path
  | Rmdir path
  | Mkdir path
  | WriteText path string
  | Run "string list"
  | Chmod path nat

record world =
  fs :: filesystem
  trace :: "event list"

type_synonym 'a io = "world \<Rightarrow> (error + 'a) \<times> world"

text \<open>
  The command executor is a parameter of the program: it receives the argument
  list and the file system, and answers with the file system it leaves behind
  and, when the tool failed, the tool's diagnostic text.
\<close>

type_synonym cmd = "string list \<Rightarrow> filesystem \<Rightarrow> string option \<times> filesystem"

definition returnIO :: "'a \<Rightarrow> 'a io" where
  "returnIO a w = (Inr a, w)"

definition bindIO :: "'a io \<Rightarrow> ('a \<Rightarrow> 'b io) \<Rightarrow> 'b io" where
  \<comment> \<open>\<^verbatim>\<open>await\<close> one step, then go on; an exception ends the coroutine\<close>
  "bindIO m f w = (case m w of (Inl e, w') \<Rightarrow> (Inl e, w') | (Inr a, w') \<Rightarrow> f a w')"

definition log :: "event \<Rightarrow> world \<Rightarrow> world" where
  "log e w = w\<lparr>trace := trace w @ [e]\<rparr>"

definition node_at :: "filesystem \<Rightarrow> path \<Rightarrow> node option" where
  "node_at f p = (if p = [] then Some Dir else map_of f p)"

definition is_file :: "filesystem \<Rightarrow> path \<Rightarrow> bool" where
  "is_file f p = (case node_at f p of Some (File _ _) \<Rightarrow> True | _ \<Rightarrow> False)"

definition is_dir :: "filesystem \<Rightarrow> path \<Rightarrow> bool" where
  "is_dir f p = (node_at f p = Some Dir)"

definition ancestors :: "path \<Rightarrow> path list" where
  "ancestors p = map (\<lambda>n. take n p) [0..<length p]"

definition under_file :: "filesystem \<Rightarrow> path \<Rightarrow> bool" where
  \<comment> \<open>some proper ancestor is a regular file: the system answers ENOTDIR\<close>
  "under_file f p = list_ex (is_file f) (ancestors p)"

definition path_exists :: "filesystem \<Rightarrow> path \<Rightarrow> bool" where
  "path_exists f p = (\<not> under_file f p \<and> node_at f p \<noteq> None)"

definition remove :: "path \<Rightarrow> filesystem \<Rightarrow> filesystem" where
  "remove p f = filter (\<lambda>e. fst e \<noteq> p) f"

definition children :: "filesystem \<Rightarrow> path \<Rightarrow> path list" where
  "children f p = filter (\<lambda>q. q \<noteq> [] \<and> butlast q = p) (map fst f)"

definition remove_all :: "path list \<Rightarrow> filesystem \<Rightarrow> filesystem" where
  "remove_all ps f = filter (\<lambda>e. fst e \<notin> set ps) f"

definition is_empty_dir :: "filesystem \<Rightarrow> path \<Rightarrow> bool" where
  "is_empty_dir f p = (is_dir f p \<and> \<not> under_file f p \<and> children f p = [])"

definition glob_star :: "filesystem \<Rightarrow> path \<Rightarrow> path list" where
  \<comment> \<open>\<^verbatim>\<open>glob('*')\<close>: the entries of a directory, nothing for anything else\<close>
  "glob_star f p = (if is_dir f p \<and> \<not> under_file f p then children f p else [])"

definition unlink :: "path \<Rightarrow> unit io" where
  \<comment> \<open>\<^verbatim>\<open>unlink(missing_ok=True)\<close>\<close>
  "unlink p w =
     (let w' = log (Unlink p) w
      in if under_file (fs w) p then (Inl (NotADirectoryError p), w')
         else (case node_at (fs w) p of
                 None \<Rightarrow> (Inr (), w')
               | Some Dir \<Rightarrow> (Inl (IsADirectoryError p), w')
               | Some (File _ _) \<Rightarrow> (Inr (), w'\<lparr>fs := remove p (fs w)\<rparr>)))"

definition rmdir :: "path \<Rightarrow> unit io" where
  "rmdir p w =
     (let w' = log (Rmdir p) w
      in if under_file (fs w) p then (Inl (NotADirectoryError p), w')
         else (case node_at (fs w) p of
                 None \<Rightarrow> (Inl (FileNotFoundError p), w')
               | Some (File _ _) \<Rightarrow> (Inl (NotADirectoryError p), w')
               | Some Dir \<Rightarrow>
                   if p = [] \<or> children (fs w) p \<noteq> [] then (Inl (OSError p), w')
                   else (Inr (), w'\<lparr>fs := remove p (fs w)\<rparr>)))"

definition mkdir :: "path \<Rightarrow> unit io" where
  \<comment> \<open>\<^verbatim>\<open>mkdir(parents=True, exist_ok=True)\<close>\<close>
  "mkdir p w =
     (let w' = log (Mkdir p) w
      in if under_file (fs w) p then (Inl (NotADirectoryError p), w')
         else (case node_at (fs w) p of
                 Some Dir \<Rightarrow> (Inr (), w')
               | Some (File _ _) \<Rightarrow> (Inl (FileExistsError p), w')
               | None \<Rightarrow>
                   (Inr (), w'\<lparr>fs := fs w @ map (\<lambda>q. (q, Dir))
                       (filter (\<lambda>q. node_at (fs w) q = None) (ancestors p @ [p]))\<rparr>)))"

definition write_text :: "path \<Rightarrow> string \<Rightarrow> unit io" where
  \<comment> \<open>a new file gets the permission bits 0o644 (the usual mask 022)\<close>
  "write_text p t w =
     (let w' = log (WriteText p t) w
      in if under_file (fs w) p then (Inl (NotADirectoryError p), w')
         else (case node_at (fs w) p of
                 Some Dir \<Rightarrow> (Inl (IsADirectoryError p), w')
               | Some (File _ m) \<Rightarrow> (Inr (), w'\<lparr>fs := (p, File t m) # remove p (fs w)\<rparr>)
               | None \<Rightarrow>
                   if is_dir (fs w) (butlast p)
                   then (Inr (), w'\<lparr>fs := (p, File t 420) # fs w\<rparr>)
                   else (Inl (FileNotFoundError p), w')))"

definition chmod :: "path \<Rightarrow> nat \<Rightarrow> unit io" where
  "chmod p m w =
     (let w' = log (Chmod p m) w
      in if under_file (fs w) p then (Inl (NotADirectoryError p), w')
         else (case node_at (fs w) p of
                 None \<Rightarrow> (Inl (FileNotFoundError p), w')
               | Some Dir \<Rightarrow> (Inr (), w')
               | Some (File t _) \<Rightarrow> (Inr (), w'\<lparr>fs := (p, File t m) # remove p (fs w)\<rparr>)))"

definition run :: "cmd \<Rightarrow> string list \<Rightarrow> unit io" where
  \<comment> \<open>\<^verbatim>\<open>cmd.run(*args)\<close>: a failure of the tool is raised with its diagnostic\<close>
  "run ex args w =
     (case ex args (fs w) of
        (None, f') \<Rightarrow> (Inr (), (log (Run args) w)\<lparr>fs := f'\<rparr>)
      | (Some msg, f') \<Rightarrow> (Inl (CmdError msg), (log (Run args) w)\<lparr>fs := f'\<rparr>))"

subsection \<open>Joining concurrent steps\<close>

text \<open>
  \<^verbatim>\<open>asyncio.gather\<close> starts its awaitables together and returns when all have
  finished, or raises as soon as one fails. Each operation of the model is
  atomic, and the order in which the awaitables take effect is not fixed by the
  program: a schedule chooses it. Every list of numbers is a schedule, and the
  schedules reach every order of the awaitables.
\<close>

type_synonym schedule = "nat list"

definition insert_at :: "nat \<Rightarrow> 'a \<Rightarrow> 'a list \<Rightarrow> 'a list" where
  "insert_at n x xs = take n xs @ x # drop n xs"

fun permute :: "schedule \<Rightarrow> 'a list \<Rightarrow> 'a list" where
  "permute s [] = []"
| "permute [] (x # xs) = x # xs"
| "permute (i # s) (x # xs) = insert_at i x (permute s xs)"

fun sequence_io :: "unit io list \<Rightarrow> unit io" where
  "sequence_io [] w = (Inr (), w)"
| "sequence_io (t # ts) w =
     (case t w of
        (Inl e, w') \<Rightarrow> (Inl e, w')
      | (Inr _, w') \<Rightarrow> sequence_io ts w')"

definition gather :: "schedule \<Rightarrow> unit io list \<Rightarrow> unit io" where
  "gather s ts = sequence_io (permute s ts)"

section \<open>The operations of a certificate\<close>

definition exists :: "Certificate \<Rightarrow> bool io" where
  "exists c w =
     (let key_exists = path_exists (fs w) (key_path c);
          csr_exists = path_exists (fs w) (csr_path c);
          crt_exists = path_exists (fs w) (crt_path c);
          conf_exists = path_exists (fs w) (conf_path c)
      in (Inr (key_exists \<and> csr_exists \<and> crt_exists \<and> conf_exists), w))"

definition build_certificate_conf :: "Certificate \<Rightarrow> unit io" where
  "build_certificate_conf c = write_text (conf_path c) (conf_text c)"

definition private_key_args :: "Certificate \<Rightarrow> string list" where
  "private_key_args c =
     [ ''openssl'',
       ''genrsa'',
       ''-out'', str (resolve (key_path c)),
       ''2048'' ]"

definition create_private_key :: "cmd \<Rightarrow> Certificate \<Rightarrow> unit io" where
  "create_private_key ex c = run ex (private_key_args c)"

definition signing_request_args :: "Certificate \<Rightarrow> string list" where
  "signing_request_args c =
     [ ''openssl'',
       ''req'',
       ''-new'',
       ''-key'', str (resolve (key_path c)),
       ''-out'', str (resolve (csr_path c)),
       ''-subj'', subject c,
       ''-config'', str (resolve (conf_path c)) ]"

definition create_signing_request :: "cmd \<Rightarrow> Certificate \<Rightarrow> unit io" where
  "create_signing_request ex c = run ex (signing_request_args c)"

definition artifact_paths :: "Certificate \<Rightarrow> path list" where
  \<comment> \<open>the four artifacts, in the order in which \<^verbatim>\<open>delete\<close> names them\<close>
  "artifact_paths c = [key_path c, csr_path c, crt_path c, conf_path c]"

definition delete :: "schedule \<Rightarrow> Certificate \<Rightarrow> unit io" where
  "delete ds c =
     bindIO (gather ds
       [ unlink (key_path c),
         unlink (csr_path c),
         unlink (crt_path c),
         unlink (conf_path c) ])
     (\<lambda>_ w.
        if path_exists (fs w) (root_path c) then
          (case glob_star (fs w) (root_path c) of
             _ # _ \<Rightarrow> (Inr (), w)
           | [] \<Rightarrow> rmdir (root_path c) w)
        else (Inr (), w))"

definition params :: "Certificate \<Rightarrow> bool \<Rightarrow> string list" where
  \<comment> \<open>the list \<^verbatim>\<open>params\<close> of \<^verbatim>\<open>create\<close>; the flag says whether the serial file
      of the authority exists\<close>
  "params c srl_exists =
     (let params0 =
            [ ''-req'',
              ''-sha256'',
              ''-days'', ''730'',
              ''-CA'', str (resolve (ca_pem_path (authority c))),
              ''-CAkey'', str (resolve (ca_key_path (authority c))),
              ''-CAserial'', str (resolve (ca_srl_path (authority c))) ];
          params1 = (if \<not> srl_exists then params0 @ [''-CAcreateserial''] else params0)
      in params1 @
           [ ''-in'', str (resolve (csr_path c)),
             ''-out'', str (resolve (crt_path c)),
             ''-extensions'', ''v3_req'',
             ''-extfile'', str (resolve (conf_path c)) ])"

definition create :: "schedule \<Rightarrow> schedule \<Rightarrow> cmd \<Rightarrow> Certificate \<Rightarrow> unit io" where
  "create ds gs ex c =
     bindIO (delete ds c) (\<lambda>_.
     bindIO (mkdir (root_path c)) (\<lambda>_.
     bindIO (gather gs [build_certificate_conf c, create_private_key ex c]) (\<lambda>_.
     bindIO (create_signing_request ex c) (\<lambda>_.
     bindIO (\<lambda>w. (Inr (params c (path_exists (fs w) (ca_srl_path (authority c)))), w)) (\<lambda>ps.
     bindIO (run ex (''openssl'' # ''x509'' # ps)) (\<lambda>_.
     bindIO (chmod (crt_path c) 420) (\<lambda>_.
     chmod (key_path c) 420)))))))"

text \<open>
  To speak about a run of \<^verbatim>\<open>create\<close>: the two halves of its body, the first
  three statements (reset, directory, configuration and key) and the rest, which
  begins when the external tool is asked for the signing request; and the step
  of the workflow that an event of the trace belongs to, numbered as in the
  specification (0 for an event that is none of the certificate's own).
\<close>

definition create_generation :: "schedule \<Rightarrow> schedule \<Rightarrow> cmd \<Rightarrow> Certificate \<Rightarrow> unit io" where
  "create_generation ds gs ex c =
     bindIO (delete ds c) (\<lambda>_.
     bindIO (mkdir (root_path c)) (\<lambda>_.
     gather gs [build_certificate_conf c, create_private_key ex c]))"

definition create_finish :: "cmd \<Rightarrow> Certificate \<Rightarrow> unit io" where
  \<comment> \<open>the statements of \<^verbatim>\<open>create\<close> that follow: request, signing, permissions\<close>
  "create_finish ex c =
     bindIO (create_signing_request ex c) (\<lambda>_.
     bindIO (\<lambda>w. (Inr (params c (path_exists (fs w) (ca_srl_path (authority c)))), w)) (\<lambda>ps.
     bindIO (run ex (''openssl'' # ''x509'' # ps)) (\<lambda>_.
     bindIO (chmod (crt_path c) 420) (\<lambda>_.
     chmod (key_path c) 420))))"


section \<open>Concrete inputs\<close>

text \<open>
  A certificate for \<^verbatim>\<open>example.test\<close> stored as \<^verbatim>\<open>/certs/site.*\<close>, and some
  states of the file system around it.
\<close>

definition example_authority :: CertificationAuthority where
  "example_authority =
     \<lparr> ca_pem_path = [''ca'', ''ca.pem''],
       ca_key_path = [''ca'', ''ca.key''],
       ca_srl_path = [''ca'', ''ca.srl''] \<rparr>"

definition example_cert :: Certificate where
  "example_cert =
     \<lparr> authority = example_authority,
       root_path = [''certs''],
       name = ''site'',
       domain = ''example.test'' \<rparr>"

definition empty_root_world :: world where
  \<comment> \<open>the storage directory exists and is empty\<close>
  "empty_root_world = \<lparr> fs = [([''certs''], Dir)], trace = [] \<rparr>"

definition no_root_world :: world where
  \<comment> \<open>nothing is there at all\<close>
  "no_root_world = \<lparr> fs = [], trace = [] \<rparr>"

definition five_files_world :: world where
  \<comment> \<open>the four artifacts and one unrelated file\<close>
  "five_files_world =
     \<lparr> fs = [ ([''certs''], Dir),
              ([''certs'', ''site.key''], File ''key'' 420),
              ([''certs'', ''site.csr''], File ''csr'' 420),
              ([''certs'', ''site.crt''], File ''crt'' 420),
              ([''certs'', ''site.conf''], File ''conf'' 420),
              ([''certs'', ''notes.txt''], File ''notes'' 420) ],
       trace = [] \<rparr>"

definition four_files_world :: world where
  \<comment> \<open>the four artifacts and nothing else\<close>
  "four_files_world = five_files_world\<lparr>fs := butlast (fs five_files_world)\<rparr>"

definition srl_world :: world where
  \<comment> \<open>the authority has issued certificates before: its serial file exists\<close>
  "srl_world =
     \<lparr> fs = [ ([''ca''], Dir), ([''ca'', ''ca.srl''], File ''01'' 420) ],
       trace = [] \<rparr>"

definition stub_tool :: cmd where
  \<comment> \<open>a tool that writes the file named after \<^verbatim>\<open>-out\<close> and succeeds\<close>
  "stub_tool args f =
     (case dropWhile (\<lambda>a. a \<noteq> ''-out'') args of
        _ # out # _ \<Rightarrow>
          (None, (parse_parts out, File ''PEM'' 384) # remove (parse_parts out) f)
      | _ \<Rightarrow> (Some ''usage'', f))"

definition failing_request_tool :: cmd where
  \<comment> \<open>the same tool, but its \<^verbatim>\<open>req\<close> command fails\<close>
  "failing_request_tool args f =
     (if take 1 (drop 1 args) = [''req''] then (Some ''req: unable to load key'', f)
      else stub_tool args f)"

section \<open>Auxiliary facts\<close>

subsection \<open>Stripping and the configuration text\<close>

lemma is_space_nl: "is_space nl"
  by (simp add: is_space_def nl_def)

lemma not_space_bracket: "\<not> is_space (CHR ''['')"
  by (simp add: is_space_def)

lemma not_space_dot: "\<not> is_space (CHR ''.'')"
  by (simp add: is_space_def)

lemma rstrip_tail: "\<not> is_space x \<Longrightarrow> rstrip (xs @ x # d @ [nl]) = xs @ x # rstrip d"
  by (simp add: rstrip_def is_space_nl dropWhile_append3)

lemma rstrip_id: "s = [] \<or> \<not> is_space (last s) \<Longrightarrow> rstrip s = s"
  by (cases s rule: rev_cases) (auto simp: rstrip_def)

lemma conf_text_eq:
  "conf_text c =
     tl (concat (map ((#) nl) (take 23 (conf_lines d)))) @
     nl # ''DNS.1 = '' @ domain c @ nl # ''DNS.2 = *.'' @ rstrip (domain c)"
proof -
  define M where
    "M = tl (concat (map ((#) nl) (take 23 (conf_lines d)))) @
           nl # ''DNS.1 = '' @ domain c @ nl # ''DNS.2 = *''"
  have tmpl: "conf_template (domain c) = nl # M @ CHR ''.'' # domain c @ [nl]"
    by (simp add: M_def conf_template_def conf_lines_def)
  obtain t where M: "M = CHR ''['' # t"
    by (simp add: M_def conf_lines_def)
  have "lstrip (conf_template (domain c)) = M @ CHR ''.'' # domain c @ [nl]"
    unfolding tmpl lstrip_def using is_space_nl not_space_bracket by (simp add: M)
  then have "conf_text c = rstrip (M @ CHR ''.'' # domain c @ [nl])"
    by (simp only: conf_text_def strip_def)
  also have "\<dots> = M @ CHR ''.'' # rstrip (domain c)"
    by (rule rstrip_tail[OF not_space_dot])
  finally show ?thesis by (simp add: M_def)
qed

subsection \<open>Steps, schedules and the file system\<close>

lemma bindIO_cases:
  assumes "bindIO m f w = (r, w')"
  obtains (fail) e where "m w = (Inl e, w')" "r = Inl e"
        | (ok) a w1 where "m w = (Inr a, w1)" "f a w1 = (r, w')"
  using assms by (auto simp: bindIO_def split: prod.splits sum.splits)

lemma length_permute: "length (permute s xs) = length xs"
  by (induction s xs rule: permute.induct) (auto simp: insert_at_def)

lemma set_insert_at: "set (insert_at n x xs) = insert x (set xs)"
proof -
  have "set (take n xs) \<union> set (drop n xs) = set xs"
    by (metis append_take_drop_id set_append)
  then show ?thesis by (auto simp: insert_at_def)
qed

lemma set_permute: "set (permute s xs) = set xs"
  by (induction s xs rule: permute.induct) (simp_all add: set_insert_at)

lemma permute_map: "permute s (map f xs) = map f (permute s xs)"
  by (induction s xs rule: permute.induct) (auto simp: insert_at_def take_map drop_map)

lemma remove_absent: "map_of f p = None \<Longrightarrow> remove p f = f"
  by (auto simp: remove_def map_of_eq_None_iff filter_id_conv image_iff)

lemma unlink_run:
  assumes "unlink p w = (r, w')"
  shows "trace w' = trace w @ [Unlink p]"
    and "r = Inr () \<Longrightarrow> fs w' = remove p (fs w)"
    and "r = Inr () \<Longrightarrow> \<not> under_file (fs w) p \<and> node_at (fs w) p \<noteq> Some Dir"
  using assms
  by (auto simp: unlink_def log_def Let_def node_at_def remove_absent
           split: if_splits option.splits node.splits)

lemma rmdir_run:
  assumes "rmdir p w = (r, w')"
  shows "trace w' = trace w @ [Rmdir p]"
    and "r = Inr () \<Longrightarrow> fs w' = remove p (fs w)"
  using assms
  by (auto simp: rmdir_def log_def Let_def split: if_splits option.splits node.splits)

lemma mkdir_run:
  assumes "mkdir p w = (r, w')"
  shows "trace w' = trace w @ [Mkdir p]"
  using assms
  by (auto simp: mkdir_def log_def Let_def split: if_splits option.splits node.splits)

lemma write_text_run:
  assumes "write_text p t w = (r, w')"
  shows "trace w' = trace w @ [WriteText p t]"
  using assms
  by (auto simp: write_text_def log_def Let_def split: if_splits option.splits node.splits)

lemma chmod_run:
  assumes "chmod p m w = (r, w')"
  shows "trace w' = trace w @ [Chmod p m]"
  using assms
  by (auto simp: chmod_def log_def Let_def split: if_splits option.splits node.splits)

lemma run_run:
  assumes "run ex args w = (r, w')"
  shows "trace w' = trace w @ [Run args]"
    and "fs w' = snd (ex args (fs w))"
    and "r = (case fst (ex args (fs w)) of None \<Rightarrow> Inr () | Some msg \<Rightarrow> Inl (CmdError msg))"
  using assms
  by (auto simp: run_def log_def split: prod.splits option.splits)

lemma sequence_io_trace:
  assumes "\<And>x v r v'. x \<in> set xs \<Longrightarrow> f x v = (r, v') \<Longrightarrow> trace v' = trace v @ [g x]"
      and "sequence_io (map f xs) w = (r, w')"
  shows "\<exists>k\<le>length xs. trace w' = trace w @ map g (take k xs) \<and> (r = Inr () \<longrightarrow> k = length xs)"
  using assms
proof (induction xs arbitrary: w)
  case Nil
  then show ?case by simp
next
  case (Cons x xs)
  obtain r1 w1 where step: "f x w = (r1, w1)" by (cases "f x w")
  have t1: "trace w1 = trace w @ [g x]" using Cons.prems(1)[OF _ step] by simp
  show ?case
  proof (cases r1)
    case (Inl e)
    then have "r = Inl e" "w' = w1" using Cons.prems(2) step by auto
    then have "trace w' = trace w @ map g (take 1 (x # xs)) \<and> (r = Inr () \<longrightarrow> 1 = length (x # xs))"
      using t1 by simp
    then show ?thesis by (intro exI[of _ 1]) simp
  next
    case (Inr u)
    then have "sequence_io (map f xs) w1 = (r, w')" using Cons.prems(2) step by simp
    from Cons.IH[OF _ this] Cons.prems(1)
    obtain k where k: "k \<le> length xs" "trace w' = trace w1 @ map g (take k xs)"
      "r = Inr () \<longrightarrow> k = length xs" by auto
    then show ?thesis using t1 by (intro exI[of _ "Suc k"]) simp
  qed
qed

lemma sequence_unlink_fs:
  assumes "sequence_io (map unlink ps) w = (Inr (), w')"
  shows "fs w' = remove_all ps (fs w)"
  using assms
proof (induction ps arbitrary: w)
  case Nil
  then show ?case by (simp add: remove_all_def)
next
  case (Cons p ps)
  obtain r1 w1 where step: "unlink p w = (r1, w1)" by (cases "unlink p w")
  with Cons.prems have r1: "r1 = Inr ()" and rest: "sequence_io (map unlink ps) w1 = (Inr (), w')"
    by (auto split: sum.splits)
  have "fs w1 = remove p (fs w)" using unlink_run(2)[OF step r1] .
  then show ?case using Cons.IH[OF rest]
    by (auto simp: remove_def remove_all_def intro: filter_cong)
qed

lemma map_of_remove: "map_of (remove q f) p = (if p = q then None else map_of f p)"
  by (induction f) (auto simp: remove_def)

lemma node_at_remove:
  "node_at (remove q f) p = (if p = q \<and> p \<noteq> [] then None else node_at f p)"
  by (simp add: node_at_def map_of_remove)

lemma is_file_remove: "is_file (remove q f) p \<Longrightarrow> is_file f p"
  by (auto simp: is_file_def node_at_remove split: if_splits)

lemma under_file_remove: "under_file (remove q f) p \<Longrightarrow> under_file f p"
  by (auto simp: under_file_def list_ex_iff dest: is_file_remove)

lemma children_remove: "children (remove q f) p = filter (\<lambda>x. x \<noteq> q) (children f p)"
  by (induction f) (auto simp: children_def remove_def)

lemma sequence_unlink_ok:
  assumes "\<forall>p\<in>set ps. \<not> under_file (fs w) p \<and> node_at (fs w) p \<noteq> Some Dir"
  shows "\<exists>w'. sequence_io (map unlink ps) w = (Inr (), w')"
  using assms
proof (induction ps arbitrary: w)
  case Nil
  then show ?case by simp
next
  case (Cons p ps)
  have p: "\<not> under_file (fs w) p" "node_at (fs w) p \<noteq> Some Dir" using Cons.prems by auto
  obtain r1 w1 where step: "unlink p w = (r1, w1)" by (cases "unlink p w")
  have r1: "r1 = Inr ()" using step p
    by (auto simp: unlink_def Let_def split: option.splits node.splits)
  have f1: "fs w1 = remove p (fs w)" using unlink_run(2)[OF step r1] .
  have "\<forall>q\<in>set ps. \<not> under_file (fs w1) q \<and> node_at (fs w1) q \<noteq> Some Dir"
    using Cons.prems by (auto simp: f1 node_at_remove dest: under_file_remove split: if_splits)
  from Cons.IH[OF this] show ?case using step r1 by simp
qed

lemma gather_unlink_trace:
  assumes "gather s (map unlink ps) w = (r, w')"
  shows "\<exists>k\<le>length ps. trace w' = trace w @ map Unlink (take k (permute s ps))
           \<and> (r = Inr () \<longrightarrow> k = length ps)"
proof -
  have "sequence_io (map unlink (permute s ps)) w = (r, w')"
    using assms by (simp add: gather_def permute_map)
  from sequence_io_trace[where f = unlink and g = Unlink, OF _ this]
  show ?thesis by (auto simp: length_permute dest: unlink_run(1))
qed

lemma gather_unlink_fs:
  assumes "gather s (map unlink ps) w = (Inr (), w')"
  shows "fs w' = remove_all ps (fs w)"
proof -
  have "sequence_io (map unlink (permute s ps)) w = (Inr (), w')"
    using assms by (simp add: gather_def permute_map)
  from sequence_unlink_fs[OF this] show ?thesis by (simp add: set_permute remove_all_def)
qed

lemma gather_unlink_ok:
  assumes "\<forall>p\<in>set ps. \<not> under_file (fs w) p \<and> node_at (fs w) p \<noteq> Some Dir"
  shows "\<exists>w'. gather s (map unlink ps) w = (Inr (), w')"
  using sequence_unlink_ok[of "permute s ps" w] assms
  by (simp add: gather_def permute_map set_permute)


lemma delete_unfold:
  "delete ds c =
     bindIO (gather ds (map unlink (artifact_paths c)))
       (\<lambda>_ w. if path_exists (fs w) (root_path c) then
          (case glob_star (fs w) (root_path c) of
             _ # _ \<Rightarrow> (Inr (), w)
           | [] \<Rightarrow> rmdir (root_path c) w)
        else (Inr (), w))"
  by (simp add: delete_def artifact_paths_def)

lemma length_artifact_paths: "length (artifact_paths c) = 4"
  by (simp add: artifact_paths_def)

lemma delete_run:
  assumes "delete ds c w = (r, w')"
  shows "\<exists>k rm. k \<le> 4
           \<and> trace w' = trace w @ map Unlink (take k (permute ds (artifact_paths c))) @ rm
           \<and> (rm = [] \<or> rm = [Rmdir (root_path c)])
           \<and> (r = Inr () \<longrightarrow> k = 4)"
  using assms unfolding delete_unfold
proof (cases rule: bindIO_cases)
  case (fail e)
  from gather_unlink_trace[OF fail(1)]
  obtain k where "k \<le> 4" "trace w' = trace w @ map Unlink (take k (permute ds (artifact_paths c)))"
    by (auto simp: length_artifact_paths)
  then show ?thesis using fail(2) by (intro exI[of _ k] exI[of _ "[]"]) simp
next
  case (ok a w1)
  from gather_unlink_trace[OF ok(1)]
  have t1: "trace w1 = trace w @ map Unlink (permute ds (artifact_paths c))"
    by (auto simp: length_permute)
  have "trace w' = trace w1 \<or> trace w' = trace w1 @ [Rmdir (root_path c)]"
    using ok(2) by (auto split: if_splits list.splits dest: rmdir_run(1))
  then show ?thesis using t1
    by (intro exI[of _ 4]) (auto simp: length_permute length_artifact_paths)
qed

lemma rmdir_ok:
  assumes "rmdir p w = (Inr (), w')"
  shows "is_empty_dir (fs w) p" and "p \<noteq> []" and "fs w' = remove p (fs w)"
  using assms
  by (auto simp: rmdir_def log_def Let_def is_empty_dir_def is_dir_def
           split: if_splits option.splits node.splits)

lemma empty_dir_glob:
  "is_empty_dir f p \<Longrightarrow> path_exists f p \<and> glob_star f p = []"
  by (simp add: is_empty_dir_def path_exists_def glob_star_def is_dir_def)

lemma map_of_remove_all:
  "map_of (remove_all ps f) q = (if q \<in> set ps then None else map_of f q)"
  by (induction f) (auto simp: remove_all_def)

lemma remove_all_absent:
  "\<forall>p\<in>set ps. map_of f p = None \<Longrightarrow> remove_all ps f = f"
  by (auto simp: remove_all_def filter_id_conv map_of_eq_None_iff image_iff)

lemma delete_ok_aux:
  assumes "delete ds c w = (Inr (), w')"
  shows "(let f1 = remove_all (artifact_paths c) (fs w);
              e = is_empty_dir f1 (root_path c)
          in fs w' = (if e then remove (root_path c) f1 else f1) \<and>
             trace w' = trace w @ map Unlink (permute ds (artifact_paths c)) @
                          (if e then [Rmdir (root_path c)] else []) \<and>
             (e \<longrightarrow> root_path c \<noteq> []))"
  using assms unfolding delete_unfold
proof (cases rule: bindIO_cases)
  case (fail e)
  then show ?thesis by simp
next
  case (ok a w1)
  have f1: "fs w1 = remove_all (artifact_paths c) (fs w)"
    using gather_unlink_fs ok(1) by (cases a) blast
  from gather_unlink_trace[OF ok(1)]
  have t1: "trace w1 = trace w @ map Unlink (permute ds (artifact_paths c))"
    by (auto simp: length_permute)
  show ?thesis
  proof (cases "path_exists (fs w1) (root_path c) \<and> glob_star (fs w1) (root_path c) = []")
    case True
    then have r: "rmdir (root_path c) w1 = (Inr (), w')" using ok(2) by simp
    from rmdir_ok[OF r] rmdir_run(1)[OF r] show ?thesis using f1 t1 by (simp add: Let_def)
  next
    case False
    then have "w' = w1" using ok(2) by (auto split: if_splits list.splits)
    moreover have "\<not> is_empty_dir (fs w1) (root_path c)" using False empty_dir_glob by blast
    ultimately show ?thesis using f1 t1 by (simp add: Let_def)
  qed
qed

lemma delete_ok:
  assumes "delete ds c w = (Inr (), w')"
  shows "fs w' =
           (let f1 = remove_all (artifact_paths c) (fs w)
            in if is_empty_dir f1 (root_path c) then remove (root_path c) f1 else f1)"
    and "trace w' = trace w @ map Unlink (permute ds (artifact_paths c)) @
           (if is_empty_dir (remove_all (artifact_paths c) (fs w)) (root_path c)
            then [Rmdir (root_path c)] else [])"
  using delete_ok_aux[OF assms] by (simp_all add: Let_def)

lemma delete_succeeds:
  assumes "\<forall>p\<in>set (artifact_paths c). \<not> under_file (fs w) p \<and> node_at (fs w) p \<noteq> Some Dir"
      and "is_empty_dir (remove_all (artifact_paths c) (fs w)) (root_path c) \<longrightarrow> root_path c \<noteq> []"
      and "is_file (remove_all (artifact_paths c) (fs w)) (root_path c) \<longrightarrow>
             under_file (remove_all (artifact_paths c) (fs w)) (root_path c)"
  shows "\<exists>w'. delete ds c w = (Inr (), w')"
proof -
  from gather_unlink_ok[OF assms(1)] obtain w1
    where g: "gather ds (map unlink (artifact_paths c)) w = (Inr (), w1)" by blast
  have f1: "fs w1 = remove_all (artifact_paths c) (fs w)" using gather_unlink_fs[OF g] .
  show ?thesis
  proof (cases "path_exists (fs w1) (root_path c) \<and> glob_star (fs w1) (root_path c) = []")
    case True
    then have nf: "\<not> is_file (fs w1) (root_path c)" and nu: "\<not> under_file (fs w1) (root_path c)"
      using assms(3) f1 by (auto simp: path_exists_def)
    with True have e: "is_empty_dir (fs w1) (root_path c)"
      by (auto simp: is_empty_dir_def path_exists_def glob_star_def is_dir_def is_file_def
               split: option.splits node.splits if_splits)
    then have "root_path c \<noteq> []" using assms(2) f1 by simp
    with e have "\<exists>w'. rmdir (root_path c) w1 = (Inr (), w')"
      by (auto simp: rmdir_def Let_def is_empty_dir_def is_dir_def)
    then show ?thesis using g True by (auto simp: delete_unfold bindIO_def)
  next
    case False
    then show ?thesis using g
      by (auto simp: delete_unfold bindIO_def split: list.splits)
  qed
qed

lemma pair_collapse: "fst x = a \<Longrightarrow> x = (a, snd x)"
  by (cases x) simp

subsection \<open>The four artifact paths\<close>

lemma split_on_nonempty: "split_on d s \<noteq> []"
  by (induction s) (auto split: list.splits)

lemma split_on_append:
  "d \<notin> set sfx \<Longrightarrow>
   split_on d (n @ sfx) = butlast (split_on d n) @ [last (split_on d n) @ sfx]"
proof (induction n)
  case Nil
  then show ?case by (induction sfx) (auto split: list.splits)
next
  case (Cons x xs)
  then show ?case
    using split_on_nonempty[of d xs] split_on_nonempty[of d "xs @ sfx"]
    by (cases "split_on d xs"; cases "butlast (split_on d xs)")
       (auto split: list.splits if_splits)
qed

lemma parse_parts_suffix:
  assumes "CHR ''/'' \<notin> set sfx" and "2 \<le> length sfx"
  shows "parse_parts (n @ sfx) =
           filter (\<lambda>p. p \<noteq> [] \<and> p \<noteq> ''.'') (butlast (split_on (CHR ''/'') n)) @
           [last (split_on (CHR ''/'') n) @ sfx]"
proof -
  have "length (last (split_on (CHR ''/'') n) @ sfx) \<ge> 2" using assms(2) by simp
  then have "last (split_on (CHR ''/'') n) @ sfx \<noteq> []"
        and "last (split_on (CHR ''/'') n) @ sfx \<noteq> ''.''"
    by (auto simp del: length_append)
  then show ?thesis
    by (simp add: parse_parts_def split_on_append[OF assms(1)])
qed

lemma joinpath_suffix:
  assumes "CHR ''/'' \<notin> set sfx" and "2 \<le> length sfx"
  shows "joinpath r (n @ sfx) =
           (if n \<noteq> [] \<and> hd n = CHR ''/'' then [] else r) @
           filter (\<lambda>p. p \<noteq> [] \<and> p \<noteq> ''.'') (butlast (split_on (CHR ''/'') n)) @
           [last (split_on (CHR ''/'') n) @ sfx]"
proof (cases n)
  case Nil
  obtain x xs where sfx: "sfx = x # xs" using assms(2) by (cases sfx) auto
  then have "x \<noteq> CHR ''/''" using assms(1) by auto
  then show ?thesis
    using parse_parts_suffix[OF assms, of "[]"] Nil sfx by (simp add: joinpath_def)
next
  case (Cons y ys)
  have n: "n \<noteq> []" using Cons by simp
  have j: "joinpath r (n @ sfx) =
             (if hd n = CHR ''/'' then [] else r) @ parse_parts (n @ sfx)"
    using Cons by (simp add: joinpath_def)
  show ?thesis unfolding j parse_parts_suffix[OF assms] using n by simp
qed

lemma artifact_shape:
  obtains base stem where
    "key_path c = base @ [stem @ ''.key'']"
    "csr_path c = base @ [stem @ ''.csr'']"
    "crt_path c = base @ [stem @ ''.crt'']"
    "conf_path c = base @ [stem @ ''.conf'']"
proof
  let ?base = "(if name c \<noteq> [] \<and> hd (name c) = CHR ''/'' then [] else root_path c) @
               filter (\<lambda>p. p \<noteq> [] \<and> p \<noteq> ''.'') (butlast (split_on (CHR ''/'') (name c)))"
  let ?stem = "last (split_on (CHR ''/'') (name c))"
  show "key_path c = ?base @ [?stem @ ''.key'']"
    unfolding key_path_def by (subst joinpath_suffix) simp_all
  show "csr_path c = ?base @ [?stem @ ''.csr'']"
    unfolding csr_path_def by (subst joinpath_suffix) simp_all
  show "crt_path c = ?base @ [?stem @ ''.crt'']"
    unfolding crt_path_def by (subst joinpath_suffix) simp_all
  show "conf_path c = ?base @ [?stem @ ''.conf'']"
    unfolding conf_path_def by (subst joinpath_suffix) simp_all
qed

lemma artifact_nonempty:
  "key_path c \<noteq> []" "csr_path c \<noteq> []" "crt_path c \<noteq> []" "conf_path c \<noteq> []"
proof -
  obtain base stem where
    "key_path c = base @ [stem @ ''.key'']"
    "csr_path c = base @ [stem @ ''.csr'']"
    "crt_path c = base @ [stem @ ''.crt'']"
    "conf_path c = base @ [stem @ ''.conf'']"
    by (rule artifact_shape)
  then show "key_path c \<noteq> []" "csr_path c \<noteq> []" "crt_path c \<noteq> []" "conf_path c \<noteq> []"
    by simp_all
qed

lemma artifact_distinct: "distinct (artifact_paths c)"
proof -
  obtain base stem where
    "key_path c = base @ [stem @ ''.key'']"
    "csr_path c = base @ [stem @ ''.csr'']"
    "crt_path c = base @ [stem @ ''.crt'']"
    "conf_path c = base @ [stem @ ''.conf'']"
    by (rule artifact_shape)
  then show ?thesis by (simp add: artifact_paths_def)
qed

lemma under_file_iff:
  "under_file f p \<longleftrightarrow>
     (\<exists>k t m. 0 < k \<and> k < length p \<and> map_of f (take k p) = Some (File t m))"
proof -
  have "is_file f q \<longleftrightarrow> q \<noteq> [] \<and> (\<exists>t m. map_of f q = Some (File t m))" for q
    by (auto simp: is_file_def node_at_def split: option.splits node.splits)
  then have "under_file f p \<longleftrightarrow>
      (\<exists>k<length p. take k p \<noteq> [] \<and> (\<exists>t m. map_of f (take k p) = Some (File t m)))"
    by (auto simp: under_file_def ancestors_def list_ex_iff)
  also have "\<dots> \<longleftrightarrow> (\<exists>k t m. 0 < k \<and> k < length p \<and> map_of f (take k p) = Some (File t m))"
    by (metis gr0I take_eq_Nil length_0_conv not_less0 less_nat_zero_code)
  finally show ?thesis .
qed

lemma has_entry_iff: "(\<exists>n. (p, n) \<in> set f) \<longleftrightarrow> map_of f p \<noteq> None"
  by (force simp: map_of_eq_None_iff)

lemma path_exists_iff:
  "p \<noteq> [] \<Longrightarrow>
   path_exists f p \<longleftrightarrow>
     (\<exists>n. (p, n) \<in> set f) \<and>
     \<not> (\<exists>k t m. 0 < k \<and> k < length p \<and> map_of f (take k p) = Some (File t m))"
  unfolding has_entry_iff under_file_iff[symmetric]
  by (auto simp: path_exists_def node_at_def)

lemma example_artifacts:
  "artifact_paths example_cert =
     [[''certs'', ''site.key''], [''certs'', ''site.csr''],
      [''certs'', ''site.crt''], [''certs'', ''site.conf'']]"
  by code_simp

subsection \<open>The lines of the configuration text\<close>

lemma split_on_no_delim: "d \<notin> set l \<Longrightarrow> split_on d l = [l]"
  by (induction l) auto

lemma split_on_line: "d \<notin> set l \<Longrightarrow> split_on d (l @ d # r) = l # split_on d r"
  by (induction l) (auto split: list.splits)

lemma split_on_lines:
  "ls \<noteq> [] \<Longrightarrow> \<forall>l\<in>set ls. d \<notin> set l \<Longrightarrow>
   split_on d (tl (concat (map ((#) d) ls))) = ls"
proof (induction ls)
  case Nil
  then show ?case by simp
next
  case (Cons l ls)
  show ?case
  proof (cases ls)
    case Nil
    then show ?thesis using Cons.prems by (simp add: split_on_no_delim)
  next
    case (Cons l' ls')
    define T where "T = tl (concat (map ((#) d) ls))"
    have c: "concat (map ((#) d) ls) = d # T" using Cons by (simp add: T_def)
    have "split_on d T = ls"
      unfolding T_def using Cons.IH Cons.prems Cons by simp
    moreover have "tl (concat (map ((#) d) (l # ls))) = l @ d # T" by (simp add: c)
    moreover have "d \<notin> set l" using Cons.prems by simp
    ultimately show ?thesis by (metis split_on_line)
  qed
qed

lemma conf_lines_split:
  "conf_lines x = take 23 (conf_lines d) @ [''DNS.1 = '' @ x, ''DNS.2 = *.'' @ x]"
  by (simp add: conf_lines_def)

lemma conf_lines_no_nl:
  assumes "nl \<notin> set x"
  shows "\<forall>l\<in>set (conf_lines x). nl \<notin> set l"
  using assms by (simp add: conf_lines_def nl_def tab_def)

subsection \<open>A run of create\<close>

lemma bindIO_assoc: "bindIO (bindIO m f) g = bindIO m (\<lambda>x. bindIO (f x) g)"
  by (rule ext) (simp add: bindIO_def split: prod.splits sum.splits)

lemma create_split:
  "create ds gs ex c = bindIO (create_generation ds gs ex c) (\<lambda>_. create_finish ex c)"
  by (simp add: create_def create_generation_def create_finish_def bindIO_assoc)

lemma take_permute_map: "take k (permute s (map f xs)) = map f (take k (permute s xs))"
  by (simp add: permute_map take_map)

lemma gather_generation_trace:
  assumes "gather gs [build_certificate_conf c, create_private_key ex c] w = (r, w')"
  shows "\<exists>k\<le>2. trace w' = trace w @
             take k (permute gs [WriteText (conf_path c) (conf_text c), Run (private_key_args c)])
           \<and> (r = Inr () \<longrightarrow> k = 2)"
proof -
  let ?f = "\<lambda>b. if b then create_private_key ex c else build_certificate_conf c"
  let ?g = "\<lambda>b. if b then Run (private_key_args c) else WriteText (conf_path c) (conf_text c)"
  have "sequence_io (map ?f (permute gs [False, True])) w = (r, w')"
    using assms by (simp add: gather_def permute_map[symmetric])
  then have seq: "sequence_io (map ?f (permute gs [False, True])) w = (r, w')" .
  have step: "\<And>x v q v'. x \<in> set (permute gs [False, True]) \<Longrightarrow> ?f x v = (q, v')
                 \<Longrightarrow> trace v' = trace v @ [?g x]"
    by (auto simp: build_certificate_conf_def create_private_key_def
             dest: write_text_run run_run(1) split: if_splits)
  have "\<exists>k\<le>length (permute gs [False, True]).
          trace w' = trace w @ map ?g (take k (permute gs [False, True])) \<and>
          (r = Inr () \<longrightarrow> k = length (permute gs [False, True]))"
    by (rule sequence_io_trace[where f = ?f and g = ?g, OF step seq])
  then obtain k where k: "k \<le> length (permute gs [False, True])"
      "trace w' = trace w @ map ?g (take k (permute gs [False, True]))"
      "r = Inr () \<longrightarrow> k = length (permute gs [False, True])"
    by blast
  have len: "length (permute gs [False, True]) = 2"
    by (simp add: length_permute)
  have "map ?g (take k (permute gs [False, True])) =
        take k (permute gs [WriteText (conf_path c) (conf_text c), Run (private_key_args c)])"
    using take_permute_map[of k gs ?g "[False, True]"] by simp
  with k show ?thesis unfolding len by (intro exI[of _ k]) simp
qed

lemma create_generation_run:
  assumes "create_generation ds gs ex c w = (r, w')"
  shows "\<exists>d m g. trace w' = trace w @ d @ m @ g
           \<and> set d \<subseteq> insert (Rmdir (root_path c)) (set (map Unlink (artifact_paths c)))
           \<and> set m \<subseteq> {Mkdir (root_path c)}
           \<and> set g \<subseteq> {WriteText (conf_path c) (conf_text c), Run (private_key_args c)}
           \<and> (r = Inr () \<longrightarrow>
                (\<exists>rm. (rm = [] \<or> rm = [Rmdir (root_path c)])
                   \<and> d = map Unlink (permute ds (artifact_paths c)) @ rm)
                \<and> m = [Mkdir (root_path c)]
                \<and> g = permute gs [WriteText (conf_path c) (conf_text c), Run (private_key_args c)])"
  using assms unfolding create_generation_def
proof (cases rule: bindIO_cases)
  case (fail e)
  from delete_run[OF fail(1)] obtain k rm where
    d: "trace w' = trace w @ map Unlink (take k (permute ds (artifact_paths c))) @ rm"
       "rm = [] \<or> rm = [Rmdir (root_path c)]" by blast
  have "set (take k (permute ds (artifact_paths c))) \<subseteq> set (artifact_paths c)"
    using set_take_subset[of k "permute ds (artifact_paths c)"] by (simp add: set_permute)
  then have "set (map Unlink (take k (permute ds (artifact_paths c))) @ rm)
      \<subseteq> insert (Rmdir (root_path c)) (set (map Unlink (artifact_paths c)))"
    using d(2) by auto
  with d(1) fail(2) show ?thesis
    by (intro exI[of _ "map Unlink (take k (permute ds (artifact_paths c))) @ rm"]
              exI[of _ "[]"]) simp
next
  case (ok a w1)
  from delete_run[OF ok(1)] obtain rm where
    d: "trace w1 = trace w @ map Unlink (permute ds (artifact_paths c)) @ rm"
       "rm = [] \<or> rm = [Rmdir (root_path c)]"
    by (auto simp: length_permute length_artifact_paths)
  let ?d = "map Unlink (permute ds (artifact_paths c)) @ rm"
  have sd: "set ?d \<subseteq> insert (Rmdir (root_path c)) (set (map Unlink (artifact_paths c)))"
    using d(2) by (auto simp: set_permute)
  from ok(2) show ?thesis
  proof (cases rule: bindIO_cases)
    case (fail e)
    from mkdir_run[OF fail(1)] d(1) fail(2) sd show ?thesis
      by (intro exI[of _ ?d] exI[of _ "[Mkdir (root_path c)]"] exI[of _ "[]"]) simp
  next
    case (ok b w2)
    from gather_generation_trace[OF ok(2)] obtain k where
      g: "trace w' = trace w2 @
            take k (permute gs [WriteText (conf_path c) (conf_text c), Run (private_key_args c)])"
         "r = Inr () \<longrightarrow> k = 2" by blast
    let ?g = "take k (permute gs [WriteText (conf_path c) (conf_text c), Run (private_key_args c)])"
    have sg: "set ?g \<subseteq> {WriteText (conf_path c) (conf_text c), Run (private_key_args c)}"
      using set_take_subset[of k "permute gs [WriteText (conf_path c) (conf_text c), Run (private_key_args c)]"]
      by (simp add: set_permute)
    have full: "r = Inr () \<longrightarrow>
        ?g = permute gs [WriteText (conf_path c) (conf_text c), Run (private_key_args c)]"
      using g(2) by (simp add: length_permute)
    from mkdir_run[OF ok(1)] d g(1) sd sg full show ?thesis
      by (intro exI[of _ ?d] exI[of _ "[Mkdir (root_path c)]"] exI[of _ ?g]) auto
  qed
qed

lemma create_finish_fail:
  assumes "ex (signing_request_args c) (fs w1) = (Some msg, f2)"
  shows "create_finish ex c w1 =
           (Inl (CmdError msg), w1\<lparr>fs := f2, trace := trace w1 @ [Run (signing_request_args c)]\<rparr>)"
  using assms
  by (simp add: create_finish_def create_signing_request_def bindIO_def run_def log_def)

lemma create_finish_run:
  assumes "ex (signing_request_args c) (fs w1) = (None, f2)"
      and "create_finish ex c w1 = (r, w')"
  shows "\<exists>p. trace w' = trace w1 @
               [Run (signing_request_args c),
                Run (''openssl'' # ''x509'' # params c (path_exists f2 (ca_srl_path (authority c))))] @ p
           \<and> set p \<subseteq> {Chmod (crt_path c) 420, Chmod (key_path c) 420}
           \<and> (r = Inr () \<longrightarrow> p = [Chmod (crt_path c) 420, Chmod (key_path c) 420])"
proof -
  let ?b = "path_exists f2 (ca_srl_path (authority c))"
  let ?w2 = "w1\<lparr>fs := f2, trace := trace w1 @ [Run (signing_request_args c)]\<rparr>"
  have req: "create_signing_request ex c w1 = (Inr (), ?w2)"
    using assms(1) by (simp add: create_signing_request_def run_def log_def)
  obtain r3 w3 where x: "run ex (''openssl'' # ''x509'' # params c ?b) ?w2 = (r3, w3)"
    by (cases "run ex (''openssl'' # ''x509'' # params c ?b) ?w2")
  have t3: "trace w3 = trace w1 @
      [Run (signing_request_args c), Run (''openssl'' # ''x509'' # params c ?b)]"
    using run_run(1)[OF x] by simp
  show ?thesis
  proof (cases r3)
    case (Inl e)
    then have "w' = w3" "r = Inl e"
      using assms(2) req x by (simp_all add: create_finish_def bindIO_def)
    with t3 show ?thesis by (intro exI[of _ "[]"]) simp
  next
    case (Inr u)
    obtain r4 w4 where c1: "chmod (crt_path c) 420 w3 = (r4, w4)"
      by (cases "chmod (crt_path c) 420 w3")
    have t4: "trace w4 = trace w3 @ [Chmod (crt_path c) 420]" using chmod_run[OF c1] .
    show ?thesis
    proof (cases r4)
      case (Inl e)
      then have "w' = w4" "r = Inl e"
        using assms(2) req x c1 \<open>r3 = Inr u\<close> by (simp_all add: create_finish_def bindIO_def)
      with t3 t4 show ?thesis by (intro exI[of _ "[Chmod (crt_path c) 420]"]) simp
    next
      case (Inr u4)
      then have c2: "chmod (key_path c) 420 w4 = (r, w')"
        using assms(2) req x c1 \<open>r3 = Inr u\<close> by (simp add: create_finish_def bindIO_def)
      from chmod_run[OF c2] t3 t4 show ?thesis
        by (intro exI[of _ "[Chmod (crt_path c) 420, Chmod (key_path c) 420]"]) simp
    qed
  qed
qed

lemma create_gen_fail:
  "create_generation ds gs ex c w = (Inl e, w1) \<Longrightarrow> create ds gs ex c w = (Inl e, w1)"
  by (simp add: create_split bindIO_def)

lemma create_gen_ok:
  "create_generation ds gs ex c w = (Inr u, w1) \<Longrightarrow> create ds gs ex c w = create_finish ex c w1"
  by (simp add: create_split bindIO_def)

lemma create_run:
  assumes "create ds gs ex c w = (r, w')"
  shows "\<exists>d m g q s p. trace w' = trace w @ d @ m @ g @ q @ s @ p
           \<and> set d \<subseteq> insert (Rmdir (root_path c)) (set (map Unlink (artifact_paths c)))
           \<and> set m \<subseteq> {Mkdir (root_path c)}
           \<and> set g \<subseteq> {WriteText (conf_path c) (conf_text c), Run (private_key_args c)}
           \<and> set q \<subseteq> {Run (signing_request_args c)}
           \<and> set s \<subseteq> {Run (''openssl'' # ''x509'' # params c True),
                        Run (''openssl'' # ''x509'' # params c False)}
           \<and> set p \<subseteq> {Chmod (crt_path c) 420, Chmod (key_path c) 420}
           \<and> (r = Inr () \<longrightarrow>
                (\<exists>rm. (rm = [] \<or> rm = [Rmdir (root_path c)])
                   \<and> d = map Unlink (permute ds (artifact_paths c)) @ rm)
                \<and> m = [Mkdir (root_path c)]
                \<and> g = permute gs [WriteText (conf_path c) (conf_text c), Run (private_key_args c)]
                \<and> q = [Run (signing_request_args c)]
                \<and> (\<exists>b. s = [Run (''openssl'' # ''x509'' # params c b)])
                \<and> p = [Chmod (crt_path c) 420, Chmod (key_path c) 420])"
proof -
  obtain r1 w1 where gen: "create_generation ds gs ex c w = (r1, w1)"
    by (cases "create_generation ds gs ex c w")
  from create_generation_run[OF gen] obtain d m g where
    t1: "trace w1 = trace w @ d @ m @ g"
    and sd: "set d \<subseteq> insert (Rmdir (root_path c)) (set (map Unlink (artifact_paths c)))"
    and sm: "set m \<subseteq> {Mkdir (root_path c)}"
    and sg: "set g \<subseteq> {WriteText (conf_path c) (conf_text c), Run (private_key_args c)}"
    and ok1: "r1 = Inr () \<longrightarrow>
                (\<exists>rm. (rm = [] \<or> rm = [Rmdir (root_path c)])
                   \<and> d = map Unlink (permute ds (artifact_paths c)) @ rm)
                \<and> m = [Mkdir (root_path c)]
                \<and> g = permute gs [WriteText (conf_path c) (conf_text c), Run (private_key_args c)]"
    by blast
  show ?thesis
  proof (cases r1)
    case (Inl e)
    then have "r = Inl e" "w' = w1" using create_gen_fail[of ds gs ex c w e w1] gen assms by simp_all
    then have "trace w' = trace w @ d @ m @ g @ [] @ [] @ []" "r \<noteq> Inr ()" using t1 by simp_all
    with sd sm sg show ?thesis
      by (intro exI[of _ d] exI[of _ m] exI[of _ g] exI[of _ "[]"]) simp
  next
    case (Inr u)
    then have fin: "create_finish ex c w1 = (r, w')"
      using create_gen_ok[of ds gs ex c w u w1] gen assms by simp
    from Inr ok1 have
      okd: "\<exists>rm. (rm = [] \<or> rm = [Rmdir (root_path c)])
                   \<and> d = map Unlink (permute ds (artifact_paths c)) @ rm"
      and okm: "m = [Mkdir (root_path c)]"
      and okg: "g = permute gs [WriteText (conf_path c) (conf_text c), Run (private_key_args c)]"
      by simp_all
    obtain mo f2 where e: "ex (signing_request_args c) (fs w1) = (mo, f2)"
      by (cases "ex (signing_request_args c) (fs w1)")
    show ?thesis
    proof (cases mo)
      case (Some msg)
      from create_finish_fail[of ex c w1 msg f2] e Some fin
      have "r \<noteq> Inr ()" "trace w' = trace w1 @ [Run (signing_request_args c)]"
        by auto
      then have "trace w' = trace w @ d @ m @ g @ [Run (signing_request_args c)] @ [] @ []"
        "r \<noteq> Inr ()" using t1 by simp_all
      with sd sm sg show ?thesis
        by (intro exI[of _ d] exI[of _ m] exI[of _ g]
                  exI[of _ "[Run (signing_request_args c)]"] exI[of _ "[]"]) simp
    next
      case None
      define b where "b = path_exists f2 (ca_srl_path (authority c))"
      from create_finish_run[OF e[unfolded None] fin] obtain p where
        t2: "trace w' = trace w1 @ [Run (signing_request_args c),
                                Run (''openssl'' # ''x509'' # params c b)] @ p"
        and sp: "set p \<subseteq> {Chmod (crt_path c) 420, Chmod (key_path c) 420}"
        and okp: "r = Inr () \<longrightarrow> p = [Chmod (crt_path c) 420, Chmod (key_path c) 420]"
        unfolding b_def by blast
      define s where "s = [Run (''openssl'' # ''x509'' # params c b)]"
      have ss: "set s \<subseteq> {Run (''openssl'' # ''x509'' # params c True),
                          Run (''openssl'' # ''x509'' # params c False)}"
        unfolding s_def by (cases b) simp_all
      have es: "\<exists>b. s = [Run (''openssl'' # ''x509'' # params c b)]"
        unfolding s_def by blast
      have t: "trace w' = trace w @ d @ m @ g @ [Run (signing_request_args c)] @ s @ p"
        using t1 t2 by (simp add: s_def)
      have sq: "set [Run (signing_request_args c)] \<subseteq> {Run (signing_request_args c)}" by simp
      from t sd sm sg sq ss sp okd okm okg es okp show ?thesis by blast
    qed
  qed
qed

subsection \<open>The step of an event\<close>

lemma subcommands:
  "private_key_args c ! 1 = ''genrsa''"
  "signing_request_args c ! 1 = ''req''"
  "(''openssl'' # ''x509'' # ps) ! 1 = ''x509''"
  by (simp_all add: private_key_args_def signing_request_args_def)

lemma args_distinct:
  "signing_request_args c \<noteq> private_key_args c"
  "''openssl'' # ''x509'' # ps \<noteq> private_key_args c"
  "''openssl'' # ''x509'' # ps \<noteq> signing_request_args c"
proof -
  have "''req'' \<noteq> ''genrsa''" "''x509'' \<noteq> ''genrsa''" "''x509'' \<noteq> ''req''" by simp_all
  then show "signing_request_args c \<noteq> private_key_args c"
    "''openssl'' # ''x509'' # ps \<noteq> private_key_args c"
    "''openssl'' # ''x509'' # ps \<noteq> signing_request_args c"
    using subcommands by metis+
qed









subsection \<open>Regular files that the first steps can leave\<close>

lemma is_file_remove_all:
  "p \<in> set ps \<Longrightarrow> \<not> is_file (remove_all ps f) p"
  by (simp add: is_file_def node_at_def map_of_remove_all)

lemma delete_no_file:
  assumes "delete ds c w = (Inr (), w')" and "p \<in> set (artifact_paths c)"
  shows "\<not> is_file (fs w') p"
  using is_file_remove_all[OF assms(2), of "fs w"] is_file_remove
  unfolding delete_ok(1)[OF assms(1)] Let_def
  by (auto split: if_splits)

lemma is_file_append_dirs:
  assumes "is_file (f @ g) q" and "snd ` set g \<subseteq> {Dir}"
  shows "is_file f q"
proof (cases "q = []")
  case True
  with assms(1) show ?thesis by (simp add: is_file_def node_at_def)
next
  case False
  show ?thesis
  proof (cases "map_of f q")
    case None
    with assms(1) False obtain t m where "map_of g q = Some (File t m)"
      by (auto simp: is_file_def node_at_def map_add_def split: option.splits node.splits)
    then have "(q, File t m) \<in> set g" by (rule map_of_SomeD)
    with assms(2) show ?thesis by force
  next
    case (Some n)
    with assms(1) False show ?thesis
      by (simp add: is_file_def node_at_def map_add_def)
  qed
qed

lemma mkdir_fs:
  assumes "mkdir p w = (r, w')"
  shows "fs w' = fs w \<or>
         fs w' = fs w @ map (\<lambda>q. (q, Dir))
                          (filter (\<lambda>q. node_at (fs w) q = None) (ancestors p @ [p]))"
  using assms
  by (auto simp: mkdir_def log_def Let_def split: if_splits option.splits node.splits)

lemma mkdir_no_file:
  assumes "mkdir p w = (r, w')" and "is_file (fs w') q"
  shows "is_file (fs w) q"
proof -
  from mkdir_fs[OF assms(1)] show ?thesis
  proof
    assume "fs w' = fs w"
    with assms(2) show ?thesis by simp
  next
    let ?g = "map (\<lambda>q. (q, Dir)) (filter (\<lambda>q. node_at (fs w) q = None) (ancestors p @ [p]))"
    assume "fs w' = fs w @ ?g"
    with assms(2) have "is_file (fs w @ ?g) q" by simp
    moreover have "snd ` set ?g \<subseteq> {Dir}" by auto
    ultimately show ?thesis by (rule is_file_append_dirs)
  qed
qed

lemma is_file_cons:
  "is_file ((p, n) # f) q \<Longrightarrow> q = p \<or> is_file f q"
  by (auto simp: is_file_def node_at_def split: if_splits)

lemma write_text_no_file:
  assumes "write_text p t w = (r, w')" and "is_file (fs w') q" and "q \<noteq> p"
  shows "is_file (fs w) q"
  using assms
  by (auto simp: write_text_def log_def Let_def
           split: if_splits option.splits node.splits
           dest!: is_file_cons is_file_remove)

lemma sequence_io_inv:
  assumes "\<And>t v r v'. t \<in> set ts \<Longrightarrow> t v = (r, v') \<Longrightarrow> P v \<Longrightarrow> P v'"
      and "sequence_io ts w = (r, w')" and "P w"
  shows "P w'"
  using assms
proof (induction ts arbitrary: w)
  case Nil
  then show ?case by simp
next
  case (Cons t ts)
  obtain r1 w1 where step: "t w = (r1, w1)" by (cases "t w")
  have p1: "P w1" using Cons.prems(1)[of t w r1 w1] step Cons.prems(3) by simp
  show ?case
  proof (cases r1)
    case (Inl e)
    with step Cons.prems(2) have "w' = w1" by (simp add: bindIO_def)
    with p1 show ?thesis by simp
  next
    case (Inr u)
    with step Cons.prems(2) have "sequence_io ts w1 = (r, w')"
      by (simp add: bindIO_def split: prod.splits sum.splits)
    then show ?thesis using Cons.IH[OF _ _ p1] Cons.prems(1) by auto
  qed
qed

lemma generation_no_certificate:
  assumes gen: "create_generation ds gs ex c w = (Inr (), w1)"
      and tool: "\<And>f. is_file (snd (ex (private_key_args c) f)) (crt_path c)
                        \<Longrightarrow> is_file f (crt_path c)"
  shows "\<not> is_file (fs w1) (crt_path c)"
  using gen unfolding create_generation_def
proof (cases rule: bindIO_cases)
  case (fail e)
  then show ?thesis by simp
next
  case (ok a wd)
  have d: "\<not> is_file (fs wd) (crt_path c)"
    using delete_no_file[of ds c w wd "crt_path c"] ok(1) by (simp add: artifact_paths_def)
  from ok(2) show ?thesis
  proof (cases rule: bindIO_cases)
    case (fail e)
    then show ?thesis by simp
  next
    case (ok b wm)
    have m: "\<not> is_file (fs wm) (crt_path c)"
      using mkdir_no_file[OF ok(1)] d by blast
    have ne: "crt_path c \<noteq> conf_path c"
      using artifact_distinct[of c] by (auto simp: artifact_paths_def)
    have step: "\<not> is_file (fs v') (crt_path c)"
      if mem: "t \<in> set (permute gs [build_certificate_conf c, create_private_key ex c])"
        and tv: "t v = (r, v')" and nv: "\<not> is_file (fs v) (crt_path c)"
      for t v r v'
    proof -
      from mem have "t = build_certificate_conf c \<or> t = create_private_key ex c"
        by (simp add: set_permute)
      then show "\<not> is_file (fs v') (crt_path c)"
      proof
        assume "t = build_certificate_conf c"
        with tv have "write_text (conf_path c) (conf_text c) v = (r, v')"
          by (simp add: build_certificate_conf_def)
        from write_text_no_file[OF this _ ne] nv show ?thesis by blast
      next
        assume "t = create_private_key ex c"
        with tv have "run ex (private_key_args c) v = (r, v')"
          by (simp add: create_private_key_def)
        from run_run(2)[OF this] tool[of "fs v"] nv show ?thesis by auto
      qed
    qed
    from ok(2) have seq:
      "sequence_io (permute gs [build_certificate_conf c, create_private_key ex c]) wm
         = (Inr (), w1)"
      by (simp add: gather_def)
    show ?thesis
    proof (rule sequence_io_inv[where P="\<lambda>v. \<not> is_file (fs v) (crt_path c)", OF _ seq m])
      fix t v r v'
      assume "t \<in> set (permute gs [build_certificate_conf c, create_private_key ex c])"
        and "t v = (r, v')" and "\<not> is_file (fs v) (crt_path c)"
      then show "\<not> is_file (fs v') (crt_path c)" by (rule step)
    qed
  qed
qed

subsection \<open>Arguments of the tool\<close>

lemma str_slash: "hd (str p) = CHR ''/'' \<and> str p \<noteq> []"
  by (cases p) (simp_all add: str_def)

lemma flag_not_path: "''-CAcreateserial'' \<noteq> str p"
proof
  assume "''-CAcreateserial'' = str p"
  then have "hd (str p) = CHR ''-''" by (metis list.sel(1))
  with str_slash[of p] show False by simp
qed

lemma generation_events:
  assumes "create_generation ds gs ex c w = (r, w1)"
  shows "length (trace w) \<le> length (trace w1)"
    and "Run a \<in> set (drop (length (trace w)) (trace w1)) \<Longrightarrow> a = private_key_args c"
    and "Chmod p m \<notin> set (drop (length (trace w)) (trace w1))"
proof -
  from create_generation_run[OF assms] obtain d m' g where
    t: "trace w1 = trace w @ d @ m' @ g"
    and sd: "set d \<subseteq> insert (Rmdir (root_path c)) (set (map Unlink (artifact_paths c)))"
    and sm: "set m' \<subseteq> {Mkdir (root_path c)}"
    and sg: "set g \<subseteq> {WriteText (conf_path c) (conf_text c), Run (private_key_args c)}"
    by blast
  show "length (trace w) \<le> length (trace w1)" by (simp add: t)
  have new: "drop (length (trace w)) (trace w1) = d @ m' @ g" by (simp add: t)
  show "Run a \<in> set (drop (length (trace w)) (trace w1)) \<Longrightarrow> a = private_key_args c"
    unfolding new using sd sm sg by auto
  show "Chmod p m \<notin> set (drop (length (trace w)) (trace w1))"
    unfolding new using sd sm sg by auto
qed

lemma example_key_args:
  "private_key_args example_cert = [''openssl'', ''genrsa'', ''-out'', ''/certs/site.key'', ''2048'']"
  by code_simp

lemma example_parse: "parse_parts ''/certs/site.key'' = [''certs'', ''site.key'']"
  by code_simp

lemma example_crt: "crt_path example_cert = [''certs'', ''site.crt'']"
  by code_simp

lemma failing_tool_frame:
  "is_file (snd (failing_request_tool (private_key_args example_cert) f)) (crt_path example_cert)
     \<Longrightarrow> is_file f (crt_path example_cert)"
  unfolding example_key_args example_crt
  by (auto simp: failing_request_tool_def stub_tool_def example_parse
           dest!: is_file_cons is_file_remove)

section \<open>The claims\<close>

text \<open>
  C1. For every certificate and every state of the disk, \<^verbatim>\<open>exists()\<close> raises
  nothing, changes nothing, and returns true if and only if each of the four
  artifact paths (key, signing request, signed certificate, configuration) has
  an entry in the file system and can be reached (no component above it is a
  regular file); it returns false as soon as one of the four is absent.
\<close>

theorem exists_iff_all_four:
  "snd (exists c w) = w
   \<and> (fst (exists c w) = Inr True \<or> fst (exists c w) = Inr False)
   \<and> (fst (exists c w) = Inr True \<longleftrightarrow>
        (\<forall>p\<in>set (artifact_paths c).
           (\<exists>n. (p, n) \<in> set (fs w)) \<and>
           \<not> (\<exists>k t m. 0 < k \<and> k < length p \<and>
                        map_of (fs w) (take k p) = Some (File t m))))"
proof -
  define present where
    "present p \<longleftrightarrow> (\<exists>n. (p, n) \<in> set (fs w)) \<and>
       \<not> (\<exists>k t m. 0 < k \<and> k < length p \<and> map_of (fs w) (take k p) = Some (File t m))" for p
  have e: "path_exists (fs w) (key_path c) = present (key_path c)"
          "path_exists (fs w) (csr_path c) = present (csr_path c)"
          "path_exists (fs w) (crt_path c) = present (crt_path c)"
          "path_exists (fs w) (conf_path c) = present (conf_path c)"
    unfolding present_def by (rule path_exists_iff, rule artifact_nonempty)+
  have r: "exists c w =
      (Inr (present (key_path c) \<and> present (csr_path c) \<and>
            present (crt_path c) \<and> present (conf_path c)), w)"
    by (simp add: exists_def e)
  have "snd (exists c w) = w
     \<and> (fst (exists c w) = Inr True \<or> fst (exists c w) = Inr False)
     \<and> (fst (exists c w) = Inr True \<longleftrightarrow> (\<forall>p\<in>set (artifact_paths c). present p))"
    unfolding r by (auto simp: artifact_paths_def)
  then show ?thesis unfolding present_def .
qed

text \<open>
  With all four artifacts on disk the answer is true; after the signed
  certificate alone is removed, or with none of them, it is false.
\<close>

theorem exists_iff_all_four_witness:
  "fst (exists example_cert five_files_world) = Inr True
   \<and> fst (exists example_cert
            (five_files_world\<lparr>fs := remove [''certs'', ''site.crt''] (fs five_files_world)\<rparr>))
       = Inr False
   \<and> fst (exists example_cert empty_root_world) = Inr False"
proof -
  have a: "\<forall>p\<in>set (artifact_paths example_cert).
           (\<exists>n. (p, n) \<in> set (fs five_files_world)) \<and>
           \<not> (\<exists>k t m. 0 < k \<and> k < length p \<and>
                        map_of (fs five_files_world) (take k p) = Some (File t m))"
    by (auto simp: example_artifacts five_files_world_def less_Suc_eq numeral_2_eq_2)
  have b: "\<not> (\<forall>p\<in>set (artifact_paths example_cert).
           (\<exists>n. (p, n) \<in> set (fs (five_files_world\<lparr>fs := remove [''certs'', ''site.crt''] (fs five_files_world)\<rparr>))) \<and>
           \<not> (\<exists>k t m. 0 < k \<and> k < length p \<and>
                        map_of (fs (five_files_world\<lparr>fs := remove [''certs'', ''site.crt''] (fs five_files_world)\<rparr>)) (take k p) = Some (File t m)))"
    by (auto simp: example_artifacts five_files_world_def remove_def)
  have c: "\<not> (\<forall>p\<in>set (artifact_paths example_cert).
           (\<exists>n. (p, n) \<in> set (fs empty_root_world)) \<and>
           \<not> (\<exists>k t m. 0 < k \<and> k < length p \<and>
                        map_of (fs empty_root_world) (take k p) = Some (File t m)))"
    by (auto simp: example_artifacts empty_root_world_def)
  from exists_iff_all_four[of example_cert five_files_world] a
  have 1: "fst (exists example_cert five_files_world) = Inr True" by blast
  from exists_iff_all_four[of example_cert
        "five_files_world\<lparr>fs := remove [''certs'', ''site.crt''] (fs five_files_world)\<rparr>"] b
  have 2: "fst (exists example_cert
            (five_files_world\<lparr>fs := remove [''certs'', ''site.crt''] (fs five_files_world)\<rparr>))
       = Inr False" by blast
  from exists_iff_all_four[of example_cert empty_root_world] c
  have 3: "fst (exists example_cert empty_root_world) = Inr False" by blast
  from 1 2 3 show ?thesis by simp
qed

text \<open>
  C6. For every domain, the subject is the concatenation of \<^verbatim>\<open>/key=value\<close> for
  the seven subject parts in the fixed order C, ST, O, localityName, commonName,
  organizationalUnitName, emailAddress, followed by a closing \<^verbatim>\<open>/\<close>; for the
  domain \<^verbatim>\<open>example.test\<close> it is the string of the specification.
\<close>

theorem subject_format:
  "map fst (subject_parts c) =
     [''C'', ''ST'', ''O'', ''localityName'', ''commonName'', ''organizationalUnitName'',
      ''emailAddress'']
   \<and> subject c =
       ''/C=/ST=/O=/localityName=/commonName='' @ domain c @
       ''/organizationalUnitName=/emailAddress='' @ domain c @ ''@localhttps/''
   \<and> subject (c\<lparr>domain := ''example.test''\<rparr>) =
       ''/C=/ST=/O=/localityName=/commonName=example.test/organizationalUnitName=/emailAddress=example.test@localhttps/''"
  by (simp add: subject_def subject_parts_def common_name_def email_def)

text \<open>
  C7. For every domain (a DNS name, which holds no white space) the
  configuration text is a fixed template in which only the domain varies. Its
  lines are 23 lines that do not depend on the domain, among them the
  \<^verbatim>\<open>v3_req\<close> section (basicConstraints CA:FALSE, keyUsage nonRepudiation,
  digitalSignature, keyEncipherment, subjectAltName = @alt_names) and, last, the
  heading of the \<^verbatim>\<open>alt_names\<close> section, followed by exactly the two entries
  \<^verbatim>\<open>DNS.1 = <domain>\<close> and \<^verbatim>\<open>DNS.2 = *.<domain>\<close>.
\<close>

theorem conf_text_template:
  assumes "\<forall>ch\<in>set (domain c). \<not> is_space ch"
  shows "split_on nl (conf_text c) =
           take 23 (conf_lines d) @ [''DNS.1 = '' @ domain c, ''DNS.2 = *.'' @ domain c]
       \<and> conf_text c =
           tl (concat (map ((#) nl) (take 23 (conf_lines d)))) @
           nl # ''DNS.1 = '' @ domain c @ nl # ''DNS.2 = *.'' @ domain c
       \<and> drop 16 (take 23 (conf_lines d)) =
           [ ''[ v3_req ]'',
             ''# Extensions to add to a certificate request'',
             ''basicConstraints = CA:FALSE'',
             ''keyUsage = nonRepudiation, digitalSignature, keyEncipherment'',
             ''subjectAltName = @alt_names'',
             [],
             ''[alt_names]'' ]"
proof (intro conjI)
  have "domain c = [] \<or> \<not> is_space (last (domain c))"
    using assms by (cases "domain c" rule: rev_cases) auto
  then have r: "rstrip (domain c) = domain c" by (rule rstrip_id)
  show t: "conf_text c =
           tl (concat (map ((#) nl) (take 23 (conf_lines d)))) @
           nl # ''DNS.1 = '' @ domain c @ nl # ''DNS.2 = *.'' @ domain c"
    using conf_text_eq[of c d] r by simp
  have "nl \<notin> set (domain c)" using assms is_space_nl by blast
  then have n: "\<forall>l\<in>set (conf_lines (domain c)). nl \<notin> set l" by (rule conf_lines_no_nl)
  have "conf_text c = tl (concat (map ((#) nl) (conf_lines (domain c))))"
    unfolding t by (simp add: conf_lines_def)
  then have "split_on nl (conf_text c) = conf_lines (domain c)"
    using split_on_lines[OF _ n] by (simp add: conf_lines_def)
  then show "split_on nl (conf_text c) =
           take 23 (conf_lines d) @ [''DNS.1 = '' @ domain c, ''DNS.2 = *.'' @ domain c]"
    using conf_lines_split[of "domain c" d] by simp
  show "drop 16 (take 23 (conf_lines d)) =
           [ ''[ v3_req ]'',
             ''# Extensions to add to a certificate request'',
             ''basicConstraints = CA:FALSE'',
             ''keyUsage = nonRepudiation, digitalSignature, keyEncipherment'',
             ''subjectAltName = @alt_names'',
             [],
             ''[alt_names]'' ]"
    by (simp add: conf_lines_def)
qed

text \<open>
  For \<^verbatim>\<open>example.test\<close>: the text ends with the heading of \<^verbatim>\<open>alt_names\<close> and the
  two entries of the specification.
\<close>

theorem conf_text_template_witness:
  "conf_text example_cert =
     tl (concat (map ((#) nl) (take 23 (conf_lines [])))) @
     nl # ''DNS.1 = example.test'' @ nl # ''DNS.2 = *.example.test''
   \<and> drop 22 (split_on nl (conf_text example_cert)) =
       [''[alt_names]'', ''DNS.1 = example.test'', ''DNS.2 = *.example.test'']"
proof -
  have h: "\<forall>ch\<in>set (domain example_cert). \<not> is_space ch"
    by (simp add: example_cert_def is_space_def)
  have l: "drop 22 (take 23 (conf_lines [])) = [''[alt_names]'']"
    by (simp add: conf_lines_def)
  have n: "length (take 23 (conf_lines [])) = 23" by (simp add: conf_lines_def)
  from conf_text_template[OF h, of "[]"]
  have A: "split_on nl (conf_text example_cert) =
             take 23 (conf_lines []) @ [''DNS.1 = '' @ domain example_cert,
                                        ''DNS.2 = *.'' @ domain example_cert]"
   and B: "conf_text example_cert =
             tl (concat (map ((#) nl) (take 23 (conf_lines [])))) @
             nl # ''DNS.1 = '' @ domain example_cert @ nl # ''DNS.2 = *.'' @ domain example_cert"
    by blast+
  have d: "domain example_cert = ''example.test''" by (simp add: example_cert_def)
  have "drop 22 (split_on nl (conf_text example_cert)) =
          drop 22 (take 23 (conf_lines [])) @
          [''DNS.1 = '' @ domain example_cert, ''DNS.2 = *.'' @ domain example_cert]"
    unfolding A using n by (simp only: drop_append) simp
  then have "drop 22 (split_on nl (conf_text example_cert)) =
       [''[alt_names]'', ''DNS.1 = example.test'', ''DNS.2 = *.example.test'']"
    unfolding l d by simp
  moreover have "conf_text example_cert =
     tl (concat (map ((#) nl) (take 23 (conf_lines [])))) @
     nl # ''DNS.1 = example.test'' @ nl # ''DNS.2 = *.example.test''"
    unfolding B d by simp
  ultimately show ?thesis by blast
qed

text \<open>
  C4. When \<^verbatim>\<open>delete\<close> returns, none of the four artifact paths is left, and the
  storage directory has been removed exactly when, after the four removals, it
  was a directory without entries. If it still held an entry (an unrelated fifth
  file, say), the file system is the old one without the four artifacts: the
  directory and every other entry are as they were.
\<close>

theorem delete_directory_cleanup:
  assumes "delete ds c w = (Inr (), w')"
  shows "(\<forall>p\<in>set (artifact_paths c). map_of (fs w') p = None)
       \<and> fs w' =
           (let f1 = remove_all (artifact_paths c) (fs w)
            in if is_empty_dir f1 (root_path c) then remove (root_path c) f1 else f1)
       \<and> (\<not> is_empty_dir (remove_all (artifact_paths c) (fs w)) (root_path c) \<longrightarrow>
            (\<forall>q. q \<notin> set (artifact_paths c) \<longrightarrow> map_of (fs w') q = map_of (fs w) q))"
  using delete_ok(1)[OF assms]
  by (auto simp: Let_def map_of_remove_all map_of_remove)

text \<open>
  The two scenarios of the specification: with an unrelated fifth file the
  directory and that file stay; with the four artifacts alone the directory goes.
\<close>

theorem delete_directory_cleanup_witness:
  "fst (delete [] example_cert five_files_world) = Inr ()
   \<and> fs (snd (delete [] example_cert five_files_world)) =
       [([''certs''], Dir), ([''certs'', ''notes.txt''], File ''notes'' 420)]
   \<and> fst (delete [] example_cert four_files_world) = Inr ()
   \<and> fs (snd (delete [] example_cert four_files_world)) = []"
proof -
  have h5: "fst (delete [] example_cert five_files_world) = Inr ()" by code_simp
  have h4: "fst (delete [] example_cert four_files_world) = Inr ()" by code_simp
  have e5: "(let f1 = remove_all (artifact_paths example_cert) (fs five_files_world)
             in if is_empty_dir f1 (root_path example_cert)
                then remove (root_path example_cert) f1 else f1) =
            [([''certs''], Dir), ([''certs'', ''notes.txt''], File ''notes'' 420)]"
    by code_simp
  have e4: "(let f1 = remove_all (artifact_paths example_cert) (fs four_files_world)
             in if is_empty_dir f1 (root_path example_cert)
                then remove (root_path example_cert) f1 else f1) = []"
    by code_simp
  from delete_directory_cleanup[OF pair_collapse[OF h5]] e5
  have "fs (snd (delete [] example_cert five_files_world)) =
       [([''certs''], Dir), ([''certs'', ''notes.txt''], File ''notes'' 420)]" by simp
  moreover from delete_directory_cleanup[OF pair_collapse[OF h4]] e4
  have "fs (snd (delete [] example_cert four_files_world)) = []" by simp
  ultimately show ?thesis using h5 h4 by simp
qed

text \<open>
  C9, as amended. On a certificate that was never created (none of the four
  artifact paths is present, none lies below a regular file), \<^verbatim>\<open>delete\<close>
  succeeds with no error and leaves the file system unchanged, provided the
  storage directory is absent or holds some entry. (An existing empty storage
  directory is removed: that is C10.)
\<close>

theorem delete_never_created:
  assumes "\<forall>p\<in>set (artifact_paths c). \<not> under_file (fs w) p \<and> node_at (fs w) p = None"
      and "\<not> path_exists (fs w) (root_path c) \<or> glob_star (fs w) (root_path c) \<noteq> []"
  shows "delete ds c w =
           (Inr (), w\<lparr>trace := trace w @ map Unlink (permute ds (artifact_paths c))\<rparr>)"
proof -
  have "\<forall>p\<in>set (artifact_paths c). \<not> under_file (fs w) p \<and> node_at (fs w) p \<noteq> Some Dir"
    using assms(1) by simp
  from gather_unlink_ok[OF this] obtain w1
    where g: "gather ds (map unlink (artifact_paths c)) w = (Inr (), w1)" by blast
  have "\<forall>p\<in>set (artifact_paths c). map_of (fs w) p = None"
    using assms(1) by (auto simp: node_at_def split: if_splits)
  then have f1: "fs w1 = fs w"
    using gather_unlink_fs[OF g] by (simp add: remove_all_absent)
  from gather_unlink_trace[OF g]
  have t1: "trace w1 = trace w @ map Unlink (permute ds (artifact_paths c))"
    by (auto simp: length_permute)
  have w1: "w1 = w\<lparr>trace := trace w @ map Unlink (permute ds (artifact_paths c))\<rparr>"
    using f1 t1 by simp
  show ?thesis using g assms(2) f1 unfolding delete_unfold w1[symmetric]
    by (auto simp: bindIO_def split: list.splits)
qed

text \<open>
  Nothing exists, not even the storage directory: \<^verbatim>\<open>delete\<close> changes nothing.
\<close>

theorem delete_never_created_witness:
  "node_at (fs no_root_world) (key_path example_cert) = None
   \<and> node_at (fs no_root_world) (csr_path example_cert) = None
   \<and> node_at (fs no_root_world) (crt_path example_cert) = None
   \<and> node_at (fs no_root_world) (conf_path example_cert) = None
   \<and> \<not> path_exists (fs no_root_world) (root_path example_cert)
   \<and> fst (delete [] example_cert no_root_world) = Inr ()
   \<and> fs (snd (delete [] example_cert no_root_world)) = fs no_root_world"
proof -
  have a: "\<forall>p\<in>set (artifact_paths example_cert).
             \<not> under_file (fs no_root_world) p \<and> node_at (fs no_root_world) p = None"
    by code_simp
  have b: "\<not> path_exists (fs no_root_world) (root_path example_cert)
           \<or> glob_star (fs no_root_world) (root_path example_cert) \<noteq> []"
    by code_simp
  have c: "\<not> path_exists (fs no_root_world) (root_path example_cert)" by code_simp
  have n: "node_at (fs no_root_world) (key_path example_cert) = None
           \<and> node_at (fs no_root_world) (csr_path example_cert) = None
           \<and> node_at (fs no_root_world) (crt_path example_cert) = None
           \<and> node_at (fs no_root_world) (conf_path example_cert) = None"
    by code_simp
  from delete_never_created[OF a b, of "[]"] n c show ?thesis by simp
qed

text \<open>
  C9 as stated fails: none of the four artifacts is present, the storage
  directory exists and is empty, and \<^verbatim>\<open>delete\<close> removes it.
\<close>

theorem delete_empty_root_counterexample:
  "\<not> path_exists (fs empty_root_world) (key_path example_cert)
   \<and> \<not> path_exists (fs empty_root_world) (csr_path example_cert)
   \<and> \<not> path_exists (fs empty_root_world) (crt_path example_cert)
   \<and> \<not> path_exists (fs empty_root_world) (conf_path example_cert)
   \<and> fst (delete [] example_cert empty_root_world) = Inr ()
   \<and> fs empty_root_world = [([''certs''], Dir)]
   \<and> fs (snd (delete [] example_cert empty_root_world)) = []"
  by code_simp

text \<open>
  C10. Whenever the storage directory exists and is empty after the four
  removals, \<^verbatim>\<open>delete\<close> removes it, whether or not any artifact was ever there:
  an empty directory that somebody else created is removed too. (The four
  removals succeed when no artifact path is a directory or lies below a regular
  file; the root of the file system cannot be removed.)
\<close>

theorem delete_removes_empty_root:
  assumes "\<forall>p\<in>set (artifact_paths c). \<not> under_file (fs w) p \<and> node_at (fs w) p \<noteq> Some Dir"
      and "is_empty_dir (remove_all (artifact_paths c) (fs w)) (root_path c)"
      and "root_path c \<noteq> []"
  shows "\<exists>w'. delete ds c w = (Inr (), w')
            \<and> fs w' = remove (root_path c) (remove_all (artifact_paths c) (fs w))
            \<and> \<not> path_exists (fs w') (root_path c)
            \<and> last (trace w') = Rmdir (root_path c)"
proof -
  have "\<not> is_file (remove_all (artifact_paths c) (fs w)) (root_path c)"
    using assms(2) by (simp add: is_empty_dir_def is_dir_def is_file_def)
  with delete_succeeds[OF assms(1), of ds] assms(3)
  obtain w' where d: "delete ds c w = (Inr (), w')" by blast
  from delete_ok[OF d] assms(2,3) show ?thesis
    using d by (simp add: path_exists_def node_at_remove)
qed

text \<open>
  No artifact was ever created, the directory \<^verbatim>\<open>/certs\<close> is there and empty:
  afterwards it is gone.
\<close>

theorem delete_removes_empty_root_witness:
  "node_at (fs empty_root_world) (key_path example_cert) = None
   \<and> node_at (fs empty_root_world) (csr_path example_cert) = None
   \<and> node_at (fs empty_root_world) (crt_path example_cert) = None
   \<and> node_at (fs empty_root_world) (conf_path example_cert) = None
   \<and> fst (delete [] example_cert empty_root_world) = Inr ()
   \<and> fs (snd (delete [] example_cert empty_root_world)) = []"
proof -
  have a: "\<forall>p\<in>set (artifact_paths example_cert).
             \<not> under_file (fs empty_root_world) p \<and> node_at (fs empty_root_world) p \<noteq> Some Dir"
    by code_simp
  have b: "is_empty_dir (remove_all (artifact_paths example_cert) (fs empty_root_world))
             (root_path example_cert)"
    by code_simp
  have c: "root_path example_cert \<noteq> []" by code_simp
  have e: "remove (root_path example_cert)
             (remove_all (artifact_paths example_cert) (fs empty_root_world)) = []"
    by code_simp
  have n: "node_at (fs empty_root_world) (key_path example_cert) = None
           \<and> node_at (fs empty_root_world) (csr_path example_cert) = None
           \<and> node_at (fs empty_root_world) (crt_path example_cert) = None
           \<and> node_at (fs empty_root_world) (conf_path example_cert) = None"
    by code_simp
  from delete_removes_empty_root[OF a b c, of "[]"] e n show ?thesis by auto
qed



text \<open>
  C3. When the first three statements of \<^verbatim>\<open>create\<close> have succeeded and the tool
  then fails on the signing request, \<^verbatim>\<open>create\<close> raises the error of the tool
  with its diagnostic text unchanged and stops there: the file system is the one
  the failed tool left, the request is the last call, and the signing command
  is not among the calls of the run. If moreover neither the key generation nor
  the failed request writes the certificate path, there is no certificate file
  afterwards, whatever the tool did to the key file.
\<close>

theorem create_request_failure:
  assumes "create_generation ds gs ex c w = (Inr (), w1)"
      and "ex (signing_request_args c) (fs w1) = (Some msg, f')"
  shows "create ds gs ex c w =
           (Inl (CmdError msg),
            w1\<lparr>fs := f', trace := trace w1 @ [Run (signing_request_args c)]\<rparr>)
         \<and> (\<forall>ps. Run (''openssl'' # ''x509'' # ps) \<notin>
                   set (drop (length (trace w)) (trace w1 @ [Run (signing_request_args c)])))
         \<and> ((\<forall>f. is_file (snd (ex (private_key_args c) f)) (crt_path c)
                    \<longrightarrow> is_file f (crt_path c))
              \<and> (is_file f' (crt_path c) \<longrightarrow> is_file (fs w1) (crt_path c))
             \<longrightarrow> \<not> is_file f' (crt_path c))"
proof (intro conjI allI impI)
  show "create ds gs ex c w =
           (Inl (CmdError msg),
            w1\<lparr>fs := f', trace := trace w1 @ [Run (signing_request_args c)]\<rparr>)"
    using create_gen_ok[OF assms(1)] create_finish_fail[of ex c w1 msg f'] assms(2) by simp
next
  fix ps
  have "Run (''openssl'' # ''x509'' # ps) \<notin> set (drop (length (trace w)) (trace w1))"
    using generation_events(2)[OF assms(1), of "''openssl'' # ''x509'' # ps"]
          args_distinct(2)[of ps c]
    by blast
  then show "Run (''openssl'' # ''x509'' # ps) \<notin>
               set (drop (length (trace w)) (trace w1 @ [Run (signing_request_args c)]))"
    using generation_events(1)[OF assms(1)] args_distinct(3)[of ps c] by auto
next
  assume frame: "(\<forall>f. is_file (snd (ex (private_key_args c) f)) (crt_path c)
                    \<longrightarrow> is_file f (crt_path c))
              \<and> (is_file f' (crt_path c) \<longrightarrow> is_file (fs w1) (crt_path c))"
  then have "\<not> is_file (fs w1) (crt_path c)"
    using generation_no_certificate[OF assms(1)] by blast
  with frame show "\<not> is_file f' (crt_path c)" by blast
qed

text \<open>
  With the four artifacts on disk and a tool whose request command fails: the
  error comes back, the old certificate is gone and no new one is there, while
  the key file of the joint step has been written.
\<close>

theorem create_request_failure_witness:
  "fst (create [] [] failing_request_tool example_cert five_files_world)
     = Inl (CmdError ''req: unable to load key'')
   \<and> is_file (fs five_files_world) (crt_path example_cert)
   \<and> \<not> is_file (fs (snd (create [] [] failing_request_tool example_cert five_files_world)))
            (crt_path example_cert)
   \<and> is_file (fs (snd (create [] [] failing_request_tool example_cert five_files_world)))
            (key_path example_cert)
   \<and> last (trace (snd (create [] [] failing_request_tool example_cert five_files_world)))
       = Run (signing_request_args example_cert)"
proof -
  let ?w1 = "snd (create_generation [] [] failing_request_tool example_cert five_files_world)"
  have g: "fst (create_generation [] [] failing_request_tool example_cert five_files_world) = Inr ()"
    by code_simp
  have q: "failing_request_tool (signing_request_args example_cert) (fs ?w1)
             = (Some ''req: unable to load key'', fs ?w1)"
    by (simp add: failing_request_tool_def signing_request_args_def)
  note t = create_request_failure[OF pair_collapse[OF g] q]
  from t have c: "create [] [] failing_request_tool example_cert five_files_world =
           (Inl (CmdError ''req: unable to load key''),
            ?w1\<lparr>fs := fs ?w1, trace := trace ?w1 @ [Run (signing_request_args example_cert)]\<rparr>)"
    by blast
  from t failing_tool_frame have n: "\<not> is_file (fs ?w1) (crt_path example_cert)"
    by blast
  have k: "is_file (fs ?w1) (key_path example_cert)" by code_simp
  have o: "is_file (fs five_files_world) (crt_path example_cert)" by code_simp
  show ?thesis unfolding c using n k o by simp
qed

text \<open>
  C5. When \<^verbatim>\<open>create\<close> reaches the signing step, the signing command follows
  the request in the trace, and its arguments are \<^verbatim>\<open>params\<close> for the answer of
  \<^verbatim>\<open>srl_path.exists()\<close> in the file system that the request left. That list
  holds \<^verbatim>\<open>-CAcreateserial\<close> exactly when the serial file is absent, and the list
  for an absent serial file is the list for a present one with that single flag
  put in after the tenth argument.
\<close>

theorem create_serial_flag:
  assumes "create_generation ds gs ex c w = (Inr (), w1)"
      and "ex (signing_request_args c) (fs w1) = (None, f2)"
  shows "take (length (trace w1) + 2) (trace (snd (create ds gs ex c w))) =
           trace w1 @
           [Run (signing_request_args c),
            Run (''openssl'' # ''x509'' #
                   params c (path_exists f2 (ca_srl_path (authority c))))]
         \<and> (\<forall>b. (''-CAcreateserial'' \<in> set (params c b)) = (\<not> b))
         \<and> params c False =
             take 10 (params c True) @ ''-CAcreateserial'' # drop 10 (params c True)"
proof (intro conjI allI)
  obtain r w' where x: "create_finish ex c w1 = (r, w')" by (cases "create_finish ex c w1")
  from create_finish_run[OF assms(2) x] obtain p where
    "trace w' = trace w1 @
               [Run (signing_request_args c),
                Run (''openssl'' # ''x509'' #
                       params c (path_exists f2 (ca_srl_path (authority c))))] @ p"
    by blast
  moreover have "snd (create ds gs ex c w) = w'"
    using create_gen_ok[OF assms(1)] x by simp
  ultimately show "take (length (trace w1) + 2) (trace (snd (create ds gs ex c w))) =
           trace w1 @
           [Run (signing_request_args c),
            Run (''openssl'' # ''x509'' #
                   params c (path_exists f2 (ca_srl_path (authority c))))]"
    by simp
next
  fix b
  show "(''-CAcreateserial'' \<in> set (params c b)) = (\<not> b)"
    using flag_not_path by (cases b) (auto simp: params_def Let_def)
next
  show "params c False =
          take 10 (params c True) @ ''-CAcreateserial'' # drop 10 (params c True)"
    by (simp add: params_def Let_def)
qed

text \<open>
  Without a serial file the signing command carries the flag, with one it does
  not.
\<close>

theorem create_serial_flag_witness:
  "Run [''openssl'', ''x509'', ''-req'', ''-sha256'', ''-days'', ''730'',
        ''-CA'', ''/ca/ca.pem'', ''-CAkey'', ''/ca/ca.key'', ''-CAserial'', ''/ca/ca.srl'',
        ''-CAcreateserial'',
        ''-in'', ''/certs/site.csr'', ''-out'', ''/certs/site.crt'',
        ''-extensions'', ''v3_req'', ''-extfile'', ''/certs/site.conf'']
     \<in> set (trace (snd (create [] [] stub_tool example_cert empty_root_world)))
   \<and> Run [''openssl'', ''x509'', ''-req'', ''-sha256'', ''-days'', ''730'',
        ''-CA'', ''/ca/ca.pem'', ''-CAkey'', ''/ca/ca.key'', ''-CAserial'', ''/ca/ca.srl'',
        ''-in'', ''/certs/site.csr'', ''-out'', ''/certs/site.crt'',
        ''-extensions'', ''v3_req'', ''-extfile'', ''/certs/site.conf'']
     \<in> set (trace (snd (create [] [] stub_tool example_cert srl_world)))"
proof -
  let ?a = "snd (create_generation [] [] stub_tool example_cert empty_root_world)"
  let ?b = "snd (create_generation [] [] stub_tool example_cert srl_world)"
  let ?fa = "snd (stub_tool (signing_request_args example_cert) (fs ?a))"
  let ?fb = "snd (stub_tool (signing_request_args example_cert) (fs ?b))"
  have ga: "fst (create_generation [] [] stub_tool example_cert empty_root_world) = Inr ()"
    by code_simp
  have gb: "fst (create_generation [] [] stub_tool example_cert srl_world) = Inr ()"
    by code_simp
  have qa: "fst (stub_tool (signing_request_args example_cert) (fs ?a)) = None"
    by code_simp
  have qb: "fst (stub_tool (signing_request_args example_cert) (fs ?b)) = None"
    by code_simp
  have pa: "''openssl'' # ''x509'' #
              params example_cert (path_exists ?fa (ca_srl_path (authority example_cert))) =
            [''openssl'', ''x509'', ''-req'', ''-sha256'', ''-days'', ''730'',
        ''-CA'', ''/ca/ca.pem'', ''-CAkey'', ''/ca/ca.key'', ''-CAserial'', ''/ca/ca.srl'',
        ''-CAcreateserial'',
        ''-in'', ''/certs/site.csr'', ''-out'', ''/certs/site.crt'',
        ''-extensions'', ''v3_req'', ''-extfile'', ''/certs/site.conf'']"
    by code_simp
  have pb: "''openssl'' # ''x509'' #
              params example_cert (path_exists ?fb (ca_srl_path (authority example_cert))) =
            [''openssl'', ''x509'', ''-req'', ''-sha256'', ''-days'', ''730'',
        ''-CA'', ''/ca/ca.pem'', ''-CAkey'', ''/ca/ca.key'', ''-CAserial'', ''/ca/ca.srl'',
        ''-in'', ''/certs/site.csr'', ''-out'', ''/certs/site.crt'',
        ''-extensions'', ''v3_req'', ''-extfile'', ''/certs/site.conf'']"
    by code_simp
  from create_serial_flag[OF pair_collapse[OF ga] pair_collapse[OF qa]]
  have "Run (''openssl'' # ''x509'' #
              params example_cert (path_exists ?fa (ca_srl_path (authority example_cert))))
          \<in> set (take (length (trace ?a) + 2)
                   (trace (snd (create [] [] stub_tool example_cert empty_root_world))))"
    by simp
  then have a: "Run (''openssl'' # ''x509'' #
              params example_cert (path_exists ?fa (ca_srl_path (authority example_cert))))
          \<in> set (trace (snd (create [] [] stub_tool example_cert empty_root_world)))"
    by (rule in_set_takeD)
  from create_serial_flag[OF pair_collapse[OF gb] pair_collapse[OF qb]]
  have "Run (''openssl'' # ''x509'' #
              params example_cert (path_exists ?fb (ca_srl_path (authority example_cert))))
          \<in> set (take (length (trace ?b) + 2)
                   (trace (snd (create [] [] stub_tool example_cert srl_world))))"
    by simp
  then have b: "Run (''openssl'' # ''x509'' #
              params example_cert (path_exists ?fb (ca_srl_path (authority example_cert))))
          \<in> set (trace (snd (create [] [] stub_tool example_cert srl_world)))"
    by (rule in_set_takeD)
  from a b show ?thesis unfolding pa pb by blast
qed

text \<open>
  C8. Whatever the certificate, the tool, the schedules and the state of the
  disk, the only commands that a run of \<^verbatim>\<open>create\<close> gives to the tool are the key
  generation, the signing request and the signing, and a run that returns
  normally has given the first and the last. The key generation asks for 2048
  bits and the signing begins with \<^verbatim>\<open>-req -sha256 -days 730\<close>: the values are
  constants of the code, independent of every input.
\<close>

theorem create_fixed_parameters:
  assumes "create ds gs ex c w = (r, w')"
  shows "(\<forall>a. Run a \<in> set (drop (length (trace w)) (trace w')) \<longrightarrow>
               a = private_key_args c \<or> a = signing_request_args c
               \<or> a = ''openssl'' # ''x509'' # params c True
               \<or> a = ''openssl'' # ''x509'' # params c False)
         \<and> (r = Inr () \<longrightarrow>
               Run (private_key_args c) \<in> set (drop (length (trace w)) (trace w'))
               \<and> (\<exists>b. Run (''openssl'' # ''x509'' # params c b)
                          \<in> set (drop (length (trace w)) (trace w'))))
         \<and> private_key_args c =
             [''openssl'', ''genrsa'', ''-out'', str (resolve (key_path c)), ''2048'']
         \<and> (\<forall>b. take 4 (params c b) = [''-req'', ''-sha256'', ''-days'', ''730''])"
proof -
  from create_run[OF assms] obtain d m g q s p where
    t: "trace w' = trace w @ d @ m @ g @ q @ s @ p"
    and sd: "set d \<subseteq> insert (Rmdir (root_path c)) (set (map Unlink (artifact_paths c)))"
    and sm: "set m \<subseteq> {Mkdir (root_path c)}"
    and sg: "set g \<subseteq> {WriteText (conf_path c) (conf_text c), Run (private_key_args c)}"
    and sq: "set q \<subseteq> {Run (signing_request_args c)}"
    and ss: "set s \<subseteq> {Run (''openssl'' # ''x509'' # params c True),
                        Run (''openssl'' # ''x509'' # params c False)}"
    and sp: "set p \<subseteq> {Chmod (crt_path c) 420, Chmod (key_path c) 420}"
    and ok: "r = Inr () \<longrightarrow>
                (\<exists>rm. (rm = [] \<or> rm = [Rmdir (root_path c)])
                   \<and> d = map Unlink (permute ds (artifact_paths c)) @ rm)
                \<and> m = [Mkdir (root_path c)]
                \<and> g = permute gs [WriteText (conf_path c) (conf_text c), Run (private_key_args c)]
                \<and> q = [Run (signing_request_args c)]
                \<and> (\<exists>b. s = [Run (''openssl'' # ''x509'' # params c b)])
                \<and> p = [Chmod (crt_path c) 420, Chmod (key_path c) 420]"
    by blast
  have new: "drop (length (trace w)) (trace w') = d @ m @ g @ q @ s @ p" by (simp add: t)
  have 1: "\<forall>a. Run a \<in> set (drop (length (trace w)) (trace w')) \<longrightarrow>
               a = private_key_args c \<or> a = signing_request_args c
               \<or> a = ''openssl'' # ''x509'' # params c True
               \<or> a = ''openssl'' # ''x509'' # params c False"
    unfolding new using sd sm sg sq ss sp by auto
  have 2: "r = Inr () \<longrightarrow>
               Run (private_key_args c) \<in> set (drop (length (trace w)) (trace w'))
               \<and> (\<exists>b. Run (''openssl'' # ''x509'' # params c b)
                          \<in> set (drop (length (trace w)) (trace w')))"
  proof
    assume "r = Inr ()"
    with ok have g: "g = permute gs [WriteText (conf_path c) (conf_text c), Run (private_key_args c)]"
      and "\<exists>b. s = [Run (''openssl'' # ''x509'' # params c b)]" by blast+
    then obtain b where s: "s = [Run (''openssl'' # ''x509'' # params c b)]" by blast
    have "Run (private_key_args c) \<in> set g" unfolding g by (simp add: set_permute)
    moreover have "Run (''openssl'' # ''x509'' # params c b) \<in> set s" by (simp add: s)
    ultimately show "Run (private_key_args c) \<in> set (drop (length (trace w)) (trace w'))
               \<and> (\<exists>b. Run (''openssl'' # ''x509'' # params c b)
                          \<in> set (drop (length (trace w)) (trace w')))"
      unfolding new by auto
  qed
  have 3: "private_key_args c =
             [''openssl'', ''genrsa'', ''-out'', str (resolve (key_path c)), ''2048'']"
    by (simp add: private_key_args_def)
  have 4: "\<forall>b. take 4 (params c b) = [''-req'', ''-sha256'', ''-days'', ''730'']"
    by (simp add: params_def Let_def)
  from 1 2 3 4 show ?thesis by blast
qed

text \<open>
  The run on the empty directory calls the key generation with 2048 bits, and
  its one signing command asks for SHA-256 and 730 days.
\<close>

theorem create_fixed_parameters_witness:
  "fst (create [] [] stub_tool example_cert empty_root_world) = Inr ()
   \<and> Run [''openssl'', ''genrsa'', ''-out'', ''/certs/site.key'', ''2048'']
       \<in> set (trace (snd (create [] [] stub_tool example_cert empty_root_world)))
   \<and> map (take 6) (filter (\<lambda>a. take 2 a = [''openssl'', ''x509''])
        (concat (map (\<lambda>e. case e of Run a \<Rightarrow> [a] | _ \<Rightarrow> [])
           (trace (snd (create [] [] stub_tool example_cert empty_root_world))))))
       = [[''openssl'', ''x509'', ''-req'', ''-sha256'', ''-days'', ''730'']]"
proof -
  have h: "fst (create [] [] stub_tool example_cert empty_root_world) = Inr ()" by code_simp
  have e: "trace empty_root_world = []" by (simp add: empty_root_world_def)
  from create_fixed_parameters[OF pair_collapse[OF h]]
  have "Run (private_key_args example_cert)
          \<in> set (drop (length (trace empty_root_world))
                   (trace (snd (create [] [] stub_tool example_cert empty_root_world))))"
    by blast
  then have "Run (private_key_args example_cert)
          \<in> set (trace (snd (create [] [] stub_tool example_cert empty_root_world)))"
    unfolding e by simp
  then have "Run [''openssl'', ''genrsa'', ''-out'', ''/certs/site.key'', ''2048'']
       \<in> set (trace (snd (create [] [] stub_tool example_cert empty_root_world)))"
    unfolding example_key_args .
  moreover have "map (take 6) (filter (\<lambda>a. take 2 a = [''openssl'', ''x509''])
        (concat (map (\<lambda>e. case e of Run a \<Rightarrow> [a] | _ \<Rightarrow> [])
           (trace (snd (create [] [] stub_tool example_cert empty_root_world))))))
       = [[''openssl'', ''x509'', ''-req'', ''-sha256'', ''-days'', ''730'']]"
    by code_simp
  ultimately show ?thesis using h by blast
qed

end
